theory Spec2Isabelle
  imports Main
begin

section \<open>The GMP primitives the code calls\<close>

text \<open>
  Isabelle names cannot start with an underscore: the C function \<open>_GMP_f\<close> is \<open>GMP_f\<close> here.
  The big integers of the code (\<open>mpz_t\<close>) are unbounded; they are modelled by \<open>nat\<close> where the
  code only handles values that the string boundary has validated as non-negative, and by
  \<open>int\<close> where the code computes with signed intermediate values.  The C return type
  \<open>int\<close> is modelled by \<open>int\<close>.  A \<open>croak\<close> (a Perl exception that leaves the function) is
  the left summand of a sum type.
\<close>

datatype error =
    InvalidBase            \<comment> \<open>\<open>croak("Base %ld is invalid")\<close>\<close>
  | IncorrectDPQ           \<comment> \<open>\<open>croak("incorrect DPQ")\<close>\<close>
  | TrialFactorRange       \<comment> \<open>\<open>croak("GMP_trial_factor from > to")\<close>\<close>
  | FactoringError         \<comment> \<open>\<open>croak("internal error in ECPP factoring")\<close>\<close>
  | InvalidDiscriminant    \<comment> \<open>\<open>croak("Invalid discriminant ... in list")\<close>\<close>
  | DivisionByZero         \<comment> \<open>GMP raises a division-by-zero signal\<close>
  | SignedOverflow         \<comment> \<open>a signed \<open>int\<close> computation overflows: undefined behaviour\<close>
  | NoReturn               \<comment> \<open>a loop of the code never exits\<close>
  | OutOfFuel              \<comment> \<open>the recursion bound of the model was reached\<close>

text \<open>\<open>mpz_scan1(d, 0)\<close>: the index of the lowest set bit.  The code only calls it on
  positive values (\<open>n - 1\<close> and \<open>n + 1\<close> for \<open>n > 2\<close>).\<close>

function mpz_scan1 :: "nat \<Rightarrow> nat" where
  "mpz_scan1 d = (if d = 0 \<or> odd d then 0 else Suc (mpz_scan1 (d div 2)))"
  by pat_completeness auto
termination
  by (relation "measure (\<lambda>d. d)") auto

declare mpz_scan1.simps [simp del]

text \<open>\<open>mpz_powm(r, b, e, m)\<close>: \<open>b ^ e mod m\<close>, computed by repeated squaring.\<close>

function mpz_powm :: "nat \<Rightarrow> nat \<Rightarrow> nat \<Rightarrow> nat" where
  "mpz_powm b e m =
     (if e = 0 then 1 mod m
      else let h = mpz_powm b (e div 2) m; s = h * h mod m
           in if odd e then s * b mod m else s)"
  by pat_completeness auto
termination
  by (relation "measure (\<lambda>(b, e, m). e)") auto

declare mpz_powm.simps [simp del]

text \<open>\<open>mpz_sizeinbase(n, 2)\<close>: the number of bits of \<open>n\<close>, and 1 for \<open>n = 0\<close>.\<close>

function bit_length :: "nat \<Rightarrow> nat" where
  "bit_length n = (if n = 0 then 0 else Suc (bit_length (n div 2)))"
  by pat_completeness auto
termination
  by (relation "measure (\<lambda>n. n)") auto

declare bit_length.simps [simp del]

definition mpz_sizeinbase2 :: "nat \<Rightarrow> nat" where
  "mpz_sizeinbase2 n = (if n = 0 then 1 else bit_length n)"

text \<open>\<open>mpz_root(r, n, k)\<close>: the integer part of the \<open>k\<close>-th root, one bit at a time.\<close>

function mpz_root :: "nat \<Rightarrow> nat \<Rightarrow> nat" where
  "mpz_root n k =
     (if n = 0 \<or> k = 0 then 0
      else let r = 2 * mpz_root (n div 2 ^ k) k
           in if (r + 1) ^ k \<le> n then r + 1 else r)"
  by pat_completeness auto
termination
proof (relation "measure (\<lambda>(n, k). n)")
  show "wf (measure (\<lambda>(n, k). n))"
    by simp
next
  fix n k :: nat
  assume "\<not> (n = 0 \<or> k = 0)"
  then have "0 < n" and "(1::nat) < 2 ^ k"
    using one_less_power [of "2::nat" k] by simp_all
  then have "n div 2 ^ k < n"
    by (intro div_less_dividend)
  then show "((n div 2 ^ k, k), (n, k)) \<in> measure (\<lambda>(n, k). n)"
    by simp
qed

declare mpz_root.simps [simp del]

text \<open>\<open>mpz_perfect_square_p(n)\<close>: \<open>n\<close> is the square of its integer square root.\<close>

definition mpz_perfect_square_p :: "nat \<Rightarrow> bool" where
  "mpz_perfect_square_p n = (mpz_root n 2 * mpz_root n 2 = n)"

text \<open>
  \<open>mpz_jacobi(a, n)\<close>: the Jacobi symbol, by its definition: the product over the prime
  factors \<open>p\<close> of \<open>n\<close> (with multiplicity) of the Legendre symbols \<open>(a/p)\<close>, where \<open>(a/p)\<close> is
  0 when \<open>p\<close> divides \<open>a\<close>, 1 when \<open>a\<close> is a square modulo \<open>p\<close>, and -1 otherwise.
  GMP defines it for odd \<open>n\<close> only, and the code calls it on odd \<open>n\<close> only.
\<close>

function least_factor_from :: "nat \<Rightarrow> nat \<Rightarrow> nat" where
  "least_factor_from n d =
     (if n < d * d then n else if d dvd n then d else least_factor_from n (d + 1))"
  by pat_completeness auto
termination
proof (relation "measure (\<lambda>(n, d). n + 1 - d)")
  show "wf (measure (\<lambda>(n, d). n + 1 - d))"
    by simp
next
  fix n d :: nat
  assume "\<not> n < d * d"
  then have "d * d \<le> n"
    by simp
  moreover have "d \<le> d * d"
    by (cases d) simp_all
  ultimately have "d \<le> n"
    by linarith
  then show "((n, d + 1), (n, d)) \<in> measure (\<lambda>(n, d). n + 1 - d)"
    by simp
qed

declare least_factor_from.simps [simp del]

definition least_factor :: "nat \<Rightarrow> nat" where
  "least_factor n = least_factor_from n 2"

definition legendre :: "int \<Rightarrow> nat \<Rightarrow> int" where
  "legendre a p =
     (if int p dvd a then 0
      else if \<exists>x\<in>{1..<p}. (int x * int x) mod int p = a mod int p then 1
      else - 1)"

lemma least_factor_from_ge: "2 \<le> d \<Longrightarrow> 2 \<le> n \<Longrightarrow> 2 \<le> least_factor_from n d"
  by (induction n d rule: least_factor_from.induct)
     (subst least_factor_from.simps, simp)

lemma least_factor_ge: "2 \<le> n \<Longrightarrow> 2 \<le> least_factor n"
  by (simp add: least_factor_def least_factor_from_ge)

function mpz_jacobi :: "int \<Rightarrow> nat \<Rightarrow> int" where
  "mpz_jacobi a n =
     (if n \<le> 1 then 1
      else let p = least_factor n in legendre a p * mpz_jacobi a (n div p))"
  by pat_completeness auto
termination
proof (relation "measure (\<lambda>(a, n). n)")
  show "wf (measure (\<lambda>(a, n). n))"
    by simp
next
  fix a :: int and n p :: nat
  assume "\<not> n \<le> 1" and "p = least_factor n"
  then have "2 \<le> p" and "0 < n"
    using least_factor_ge [of n] by simp_all
  then have "n div p < n"
    by (intro div_less_dividend) simp_all
  then show "((a, n div p), (a, n)) \<in> measure (\<lambda>(a, n). n)"
    by simp
qed

declare mpz_jacobi.simps [simp del]

text \<open>C's \<open>/\<close> on signed integers truncates towards zero.\<close>

definition c_div :: "int \<Rightarrow> int \<Rightarrow> int" where
  "c_div a b = sgn a * sgn b * (\<bar>a\<bar> div \<bar>b\<bar>)"

section \<open>The prime iterator\<close>

text \<open>
  \<open>prime_iterator_next\<close> is declared in \<open>prime_iterator.h\<close>; its definition is not among
  the sources.  The code uses it to step from a prime to the next larger prime.
  Modelled from the spec: the iterator enumerates the primes in increasing order.
\<close>

definition prime_p :: "nat \<Rightarrow> bool" where
  "prime_p n = (2 \<le> n \<and> least_factor n = n)"

lemma least_factor_from_dvd: "least_factor_from n d dvd n"
  by (induction n d rule: least_factor_from.induct)
     (subst least_factor_from.simps, simp)

lemma least_factor_dvd: "least_factor n dvd n"
  by (simp add: least_factor_def least_factor_from_dvd)

lemma least_factor_from_least:
  assumes "\<forall>e. 2 \<le> e \<and> e < d \<longrightarrow> \<not> e dvd n" and "2 \<le> e" and "e dvd n" and "0 < n"
  shows "least_factor_from n d \<le> e"
  using assms
proof (induction n d rule: least_factor_from.induct)
  case (1 n d)
  have de: "d \<le> e"
    using "1.prems" by (meson not_le)
  show ?case
  proof (cases "n < d * d")
    case True
    have "n \<le> e"
    proof (rule ccontr)
      assume "\<not> n \<le> e"
      then have lt: "e < n" by simp
      from \<open>e dvd n\<close> obtain c where c: "n = e * c" ..
      with lt \<open>0 < n\<close> have "2 \<le> c"
        by (cases c; cases "c - 1") auto
      moreover have "c dvd n"
        using c by simp
      ultimately have "d \<le> c"
        using "1.prems"(1) by (meson not_le)
      with de have "d * d \<le> e * c"
        by (rule mult_le_mono)
      with c True show False by simp
    qed
    with True show ?thesis
      by (subst least_factor_from.simps) simp
  next
    case False
    show ?thesis
    proof (cases "d dvd n")
      case True
      with False de show ?thesis
        by (subst least_factor_from.simps) simp
    next
      case nd: False
      have "\<forall>e. 2 \<le> e \<and> e < d + 1 \<longrightarrow> \<not> e dvd n"
        using "1.prems"(1) nd by (metis Suc_eq_plus1 less_Suc_eq)
      then have "least_factor_from n (d + 1) \<le> e"
        using "1.IH" False nd "1.prems" by simp
      with False nd show ?thesis
        by (subst least_factor_from.simps) simp
    qed
  qed
qed

lemma least_factor_least: "2 \<le> e \<Longrightarrow> e dvd n \<Longrightarrow> 0 < n \<Longrightarrow> least_factor n \<le> e"
  unfolding least_factor_def by (rule least_factor_from_least) auto

lemma prime_p_least_factor: "2 \<le> n \<Longrightarrow> prime_p (least_factor n)"
proof -
  assume n: "2 \<le> n"
  let ?p = "least_factor n"
  have p2: "2 \<le> ?p"
    using n by (rule least_factor_ge)
  have "2 \<le> least_factor ?p"
    using p2 by (rule least_factor_ge)
  moreover have "least_factor ?p dvd n"
    using least_factor_dvd [of ?p] least_factor_dvd [of n] by (rule dvd_trans)
  ultimately have "?p \<le> least_factor ?p"
    using n by (intro least_factor_least) simp_all
  moreover have "least_factor ?p \<le> ?p"
    using least_factor_dvd [of ?p] p2 by (intro dvd_imp_le) simp_all
  ultimately show ?thesis
    using p2 by (simp add: prime_p_def)
qed

lemma prime_above: "\<exists>r\<ge>q. prime_p r"
proof -
  let ?N = "fact q + 1 :: nat"
  let ?p = "least_factor ?N"
  have N2: "2 \<le> ?N"
    using fact_ge_1 [of q, where ?'a = nat] by linarith
  then have pr: "prime_p ?p"
    by (rule prime_p_least_factor)
  have "q < ?p"
  proof (rule ccontr)
    assume "\<not> q < ?p"
    then have "?p \<le> q" by simp
    moreover have "1 \<le> ?p"
      using least_factor_ge [OF N2] by simp
    ultimately have "?p dvd fact q"
      by (intro dvd_fact)
    moreover have "?p dvd fact q + 1"
      by (rule least_factor_dvd)
    ultimately have "?p dvd 1"
      using dvd_add_right_iff [of ?p "fact q" 1] by blast
    with least_factor_ge [OF N2] show False by simp
  qed
  with pr show ?thesis
    by (intro exI [of _ ?p]) simp
qed

function prime_search :: "nat \<Rightarrow> nat" where
  "prime_search q = (if prime_p q then q else prime_search (q + 1))"
  by pat_completeness auto
termination
proof (relation "measure (\<lambda>q. (LEAST r. q \<le> r \<and> prime_p r) - q)")
  show "wf (measure (\<lambda>q. (LEAST r. q \<le> r \<and> prime_p r) - q))"
    by simp
next
  fix q :: nat
  assume np: "\<not> prime_p q"
  let ?L = "\<lambda>q. LEAST r. q \<le> r \<and> prime_p r"
  obtain r where r: "q \<le> r \<and> prime_p r"
    using prime_above by blast
  then have L: "q \<le> ?L q \<and> prime_p (?L q)"
    by (rule LeastI)
  with np have "q \<noteq> ?L q"
    by auto
  with L have lt: "q + 1 \<le> ?L q"
    by simp
  with L have "?L (q + 1) \<le> ?L q"
    by (intro Least_le) simp
  moreover obtain r' where "q + 1 \<le> r' \<and> prime_p r'"
    using prime_above by blast
  then have "q + 1 \<le> ?L (q + 1)"
    by (rule LeastI2) simp
  ultimately show "(q + 1, q) \<in> measure (\<lambda>q. (LEAST r. q \<le> r \<and> prime_p r) - q)"
    using lt by simp
qed

declare prime_search.simps [simp del]

definition prime_iterator_next :: "nat \<Rightarrow> nat" where
  "prime_iterator_next p = prime_search (p + 1)"

lemma prime_search_ge: "q \<le> prime_search q"
  by (induction q rule: prime_search.induct)
     (subst prime_search.simps, simp add: Suc_leD)

lemma prime_iterator_next_gt: "p < prime_iterator_next p"
  using prime_search_ge [of "p + 1"] by (simp add: prime_iterator_next_def)

section \<open>Miller-Rabin\<close>

text \<open>The loop \<open>for (r = 1; r < s; r++)\<close> of \<open>_GMP_miller_rabin\<close>; the value is \<open>rval\<close>.\<close>

function mr_loop :: "nat \<Rightarrow> nat \<Rightarrow> nat \<Rightarrow> nat \<Rightarrow> nat \<Rightarrow> int" where
  "mr_loop n nminus1 s r x =
     (if r < s then
        (let x' = mpz_powm x 2 n
         in if x' = 1 then 0
            else if x' = nminus1 then 1
            else mr_loop n nminus1 s (r + 1) x')
      else 0)"
  by pat_completeness auto
termination
  by (relation "measure (\<lambda>(n, nminus1, s, r, x). s - r)") auto

declare mr_loop.simps [simp del]

definition GMP_miller_rabin :: "nat \<Rightarrow> nat \<Rightarrow> error + int" where
  "GMP_miller_rabin n a =
     (if n = 2 then Inr 1
      else if n < 2 then Inr 0
      else if even n then Inr 0
      else if a \<le> 1 then Inl InvalidBase
      else
        let nminus1 = n - 1;
            x = (if a \<ge> n then a mod n else a)
        in if x \<le> 1 \<or> x \<ge> nminus1 then Inr 1
           else
             let s = mpz_scan1 nminus1;
                 d = nminus1 div 2 ^ s;
                 x = mpz_powm x d n
             in if x = 1 \<or> x = nminus1 then Inr 1
                else Inr (mr_loop n nminus1 s 1 x))"

definition GMP_miller_rabin_ui :: "nat \<Rightarrow> nat \<Rightarrow> error + int" where
  "GMP_miller_rabin_ui n base = GMP_miller_rabin n base"

section \<open>The Lucas-Selfridge test\<close>

text \<open>
  The parameter search of \<open>_GMP_is_lucas_pseudoprime\<close> (Selfridge's method A) is a
  \<open>while (1)\<close> loop: it returns 0 from the function when \<open>D_ui\<close> shares a proper
  factor with \<open>n\<close>, and leaves the loop at the first \<open>D = D_ui * sign\<close> with Jacobi
  symbol -1.  Nothing in the loop bounds it, so it is a partial function: \<open>None\<close> is the
  loop that never exits.  \<open>D_ui\<close> (a machine word in the code) is unbounded here: the
  search ends long before a word could overflow.
\<close>

datatype selfridge = Composite | Found int

partial_function (option) selfridge_search :: "nat \<Rightarrow> nat \<Rightarrow> int \<Rightarrow> selfridge option" where
  "selfridge_search n D_ui sign =
     (let g = gcd n D_ui
      in if g > 1 \<and> n \<noteq> g then Some Composite
         else if mpz_jacobi (int D_ui * sign) n = - 1 then Some (Found (int D_ui * sign))
         else selfridge_search n (D_ui + 2) (- sign))"

declare selfridge_search.simps [code]

text \<open>The doubling ladder \<open>while (b > 1)\<close>; the value is \<open>(U, V, Qk)\<close> at the exit.\<close>

function lucas_ladder ::
  "int \<Rightarrow> int \<Rightarrow> int \<Rightarrow> nat \<Rightarrow> nat \<Rightarrow> int \<Rightarrow> int \<Rightarrow> int \<Rightarrow> int \<times> int \<times> int" where
  "lucas_ladder n D Q d b U V Qk =
     (if b > 1 then
        (let U = U * V mod n;
             V = (V * V - 2 * Qk) mod n;
             Qk = Qk * Qk;
             b = b - 1
         in if bit d (b - 1) then
              (let T2 = U * D;
                   T1 = U + V;
                   T1 = (if odd T1 then T1 + n else T1);
                   U = T1 div 2;
                   T1 = T2 + V;
                   T1 = (if odd T1 then T1 + n else T1);
                   V = T1 div 2;
                   Qk = Qk * Q
               in lucas_ladder n D Q d b U V (Qk mod n))
            else lucas_ladder n D Q d b U V (Qk mod n))
      else (U, V, Qk))"
  by pat_completeness auto
termination
  by (relation "measure (\<lambda>(n, D, Q, d, b, U, V, Qk). b)") auto

declare lucas_ladder.simps [simp del]

text \<open>The loop \<open>while (s--)\<close> of the strong test; the value is \<open>rval\<close>.\<close>

function lucas_strong_loop :: "int \<Rightarrow> nat \<Rightarrow> int \<Rightarrow> int \<Rightarrow> int" where
  "lucas_strong_loop n s V Qk =
     (if s = 0 then 0
      else let s = s - 1;
               V = (V * V - 2 * Qk) mod n
           in if V = 0 then 1
              else lucas_strong_loop n s V (if s \<noteq> 0 then Qk * Qk mod n else Qk))"
  by pat_completeness auto
termination
  by (relation "measure (\<lambda>(n, s, V, Qk). s)") auto

declare lucas_strong_loop.simps [simp del]

definition GMP_is_lucas_pseudoprime :: "nat \<Rightarrow> bool \<Rightarrow> error + int" where
  "GMP_is_lucas_pseudoprime n do_strong =
     (if n = 2 then Inr 1
      else if n < 2 then Inr 0
      else if even n then Inr 0
      else if mpz_perfect_square_p n then Inr 0
      else
        case selfridge_search n 5 1 of
          None \<Rightarrow> Inl NoReturn
        | Some Composite \<Rightarrow> Inr 0
        | Some (Found D) \<Rightarrow>
            let P = 1;
                Q = c_div (1 - D) 4
            in if D \<noteq> P * P - 4 * Q then Inl IncorrectDPQ
               else
                 let d = n + 1;
                     s = mpz_scan1 d;
                     d = (if do_strong then d div 2 ^ s else d);
                     b = mpz_sizeinbase2 d;
                     (U, V, Qk) = lucas_ladder (int n) D Q d b 1 P Q;
                     U = U mod int n;
                     V = V mod int n
                 in if \<not> do_strong then Inr (if U = 0 then 1 else 0)
                    else if U = 0 \<or> V = 0 then Inr 1
                    else Inr (lucas_strong_loop (int n) s V Qk))"

section \<open>BPSW: trial division, then Miller-Rabin base 2, then strong Lucas\<close>

text \<open>A \<open>UV\<close> is a 64-bit unsigned integer: \<open>uv x\<close> is the value that an expression of
  type \<open>UV\<close> has when its mathematical value is \<open>x\<close>.\<close>

definition uv :: "nat \<Rightarrow> nat" where
  "uv x = x mod 2 ^ 64"

text \<open>The loop \<open>for (f = 2; f <= to_n; f = prime_iterator_next(&iter))\<close> of
  \<open>_GMP_trial_factor\<close>; the value is the factor returned, or 0.  The products \<open>f*f\<close> and
  \<open>to_n*to_n\<close> are computed in \<open>UV\<close>.\<close>

function trial_loop :: "nat \<Rightarrow> nat \<Rightarrow> bool \<Rightarrow> nat \<Rightarrow> nat" where
  "trial_loop n to_n small_n f =
     (if f \<le> to_n then
        (if small_n \<and> n < uv (f * f) then 0
         else if f dvd n then f
         else trial_loop n to_n small_n (prime_iterator_next f))
      else 0)"
  by pat_completeness auto
termination
proof (relation "measure (\<lambda>(n, to_n, small_n, f). to_n + 1 - f)")
  show "wf (measure (\<lambda>(n, to_n, small_n, f). to_n + 1 - f))"
    by simp
next
  fix n to_n f :: nat and small_n :: bool
  assume "f \<le> to_n"
  with prime_iterator_next_gt [of f]
  show "((n, to_n, small_n, prime_iterator_next f), (n, to_n, small_n, f))
          \<in> measure (\<lambda>(n, to_n, small_n, f). to_n + 1 - f)"
    by simp
qed

declare trial_loop.simps [simp del]

definition GMP_trial_factor :: "nat \<Rightarrow> nat \<Rightarrow> nat \<Rightarrow> error + nat" where
  "GMP_trial_factor n from_n to_n =
     (if n < 4 then Inr (if n \<le> 1 then 1 else 0)
      else if from_n \<le> 2 \<and> even n then Inr 2
      else if from_n > to_n then Inl TrialFactorRange
      else Inr (trial_loop n to_n (n < uv (to_n * to_n)) 2))"

text \<open>\<open>_GMP_pn_primorial(prim, n)\<close>: the product of the first \<open>n\<close> primes; \<open>_GMP_init\<close>
  stores the product of the first 168 primes (those below 1000) in the global \<open>_bgcd\<close>.\<close>

function pn_primorial_loop :: "nat \<Rightarrow> nat \<Rightarrow> nat \<Rightarrow> nat" where
  "pn_primorial_loop n p prim =
     (if n \<noteq> 0 then pn_primorial_loop (n - 1) (prime_iterator_next p) (prim * p) else prim)"
  by pat_completeness auto
termination
  by (relation "measure (\<lambda>(n, p, prim). n)") auto

declare pn_primorial_loop.simps [simp del]

definition GMP_pn_primorial :: "nat \<Rightarrow> nat" where
  "GMP_pn_primorial n = pn_primorial_loop n 2 1"

definition bgcd :: nat where
  "bgcd = GMP_pn_primorial 168"

definition GMP_is_prob_prime :: "nat \<Rightarrow> error + int" where
  "GMP_is_prob_prime n =
     (if n \<le> 1008 then
        (case GMP_trial_factor n 2 997 of
           Inl e \<Rightarrow> Inl e
         | Inr f \<Rightarrow> Inr (if f \<noteq> 0 then 0 else 2))
      else if even n \<or> 3 dvd n \<or> 5 dvd n then Inr 0
      else if gcd n bgcd \<noteq> 1 then Inr 0
      else if n < 1009 * 1009 then Inr 2
      else
        case GMP_miller_rabin_ui n 2 of
          Inl e \<Rightarrow> Inl e
        | Inr mr \<Rightarrow>
            if mr = 0 then Inr 0
            else
              case GMP_is_lucas_pseudoprime n True of
                Inl e \<Rightarrow> Inl e
              | Inr sl \<Rightarrow>
                  if sl = 0 then Inr 0
                  else if mpz_sizeinbase2 n \<le> 64 then Inr 2
                  else Inr 1)"

section \<open>Properties of Miller-Rabin\<close>


text \<open>
  Claim C10.  For every odd \<open>n > 2\<close> and every base \<open>a \<ge> 2\<close> whose residue \<open>a mod n\<close> is
  0, 1 or \<open>n - 1\<close>, \<open>_GMP_miller_rabin(n, a)\<close> returns 1 (probable prime), whatever \<open>n\<close> is:
  the code returns before any modular exponentiation.
\<close>

theorem miller_rabin_trivial_residue:
  assumes "odd n" and "2 < n" and "2 \<le> a"
    and "a mod n = 0 \<or> a mod n = 1 \<or> a mod n = n - 1"
  shows "GMP_miller_rabin n a = Inr 1"
proof -
  define x where "x = (if a \<ge> n then a mod n else a)"
  have "x = a mod n"
    by (simp add: x_def)
  with assms(4) have "x \<le> 1 \<or> x \<ge> n - 1"
    by auto
  with assms(1-3) show ?thesis
    by (simp add: GMP_miller_rabin_def x_def Let_def)
qed

text \<open>The composite 9 passes with the bases 9, 10 and 8 (residues 0, 1 and \<open>n - 1\<close>).\<close>

theorem miller_rabin_trivial_residue_witness:
  "odd (9::nat) \<and> (2::nat) < 9 \<and> (2::nat) \<le> 8 \<and> (8::nat) mod 9 = 9 - 1
   \<and> GMP_miller_rabin 9 8 = Inr 1 \<and> 3 * 3 = (9::nat)"
  using miller_rabin_trivial_residue [of 9 8] by simp

lemma mpz_root_spec: "0 < k \<Longrightarrow> mpz_root n k ^ k \<le> n \<and> n < (mpz_root n k + 1) ^ k"
proof (induction n k rule: mpz_root.induct)
  case (1 n k)
  show ?case
  proof (cases "n = 0")
    case True
    then show ?thesis by (subst mpz_root.simps, subst (2) mpz_root.simps) (simp add: \<open>0 < k\<close>)
  next
    case False
    define m where "m = n div 2 ^ k"
    define r0 where "r0 = mpz_root m k"
    have ih: "r0 ^ k \<le> m \<and> m < (r0 + 1) ^ k"
      using 1 False by (simp add: m_def r0_def)
    have "(2 * r0) ^ k = 2 ^ k * r0 ^ k"
      by (simp add: power_mult_distrib)
    also have "\<dots> \<le> 2 ^ k * m"
      using ih by simp
    also have "\<dots> \<le> n"
      by (simp add: m_def)
    finally have lo: "(2 * r0) ^ k \<le> n" .
    have "n < 2 ^ k * (m + 1)"
      unfolding m_def using dividend_less_times_div [of "2 ^ k" n] by (simp add: algebra_simps)
    also have "\<dots> \<le> 2 ^ k * (r0 + 1) ^ k"
    proof -
      have "m + 1 \<le> (r0 + 1) ^ k" using ih by simp
      then show ?thesis by (rule mult_le_mono2)
    qed
    also have "\<dots> = (2 * r0 + 1 + 1) ^ k"
      by (simp add: power_mult_distrib [symmetric])
    finally have hi: "n < (2 * r0 + 1 + 1) ^ k" .
    have eq: "mpz_root n k = (if (2 * r0 + 1) ^ k \<le> n then 2 * r0 + 1 else 2 * r0)"
      using False \<open>0 < k\<close> by (subst mpz_root.simps) (simp add: Let_def m_def r0_def)
    show ?thesis
      using lo hi by (auto simp: eq not_le)
  qed
qed

lemma mpz_perfect_square_p_iff: "mpz_perfect_square_p n \<longleftrightarrow> (\<exists>r. n = r * r)"
proof
  assume "mpz_perfect_square_p n"
  then show "\<exists>r. n = r * r"
    unfolding mpz_perfect_square_p_def by (intro exI [of _ "mpz_root n 2"]) simp
next
  assume "\<exists>r. n = r * r"
  then obtain r where n: "n = r * r" ..
  let ?s = "mpz_root n 2"
  have sq: "?s ^ 2 \<le> r ^ 2" "r ^ 2 < (?s + 1) ^ 2"
    using mpz_root_spec [of 2 n] by (simp_all add: n power2_eq_square)
  have "?s \<le> r"
    using sq(1) by (rule power2_le_imp_le) simp
  moreover have "r < ?s + 1"
    using sq(2) by (rule power_less_imp_less_base) simp
  ultimately have "?s = r" by simp
  then show "mpz_perfect_square_p n"
    by (simp add: mpz_perfect_square_p_def n)
qed

lemma nonresidue_exists:
  fixes p :: nat
  assumes "odd p" and "2 < p"
  shows "\<exists>r\<in>{1..<p}. \<forall>x\<in>{1..<p}. x * x mod p \<noteq> r"
proof -
  let ?A = "{1..<p}"
  let ?f = "\<lambda>x. x * x mod p"
  have one: "?f 1 = 1"
    using assms by simp
  obtain q where q: "p = q + 2"
    using assms(2) by (metis add.commute less_imp_add_positive)
  have "(q + 1) * (q + 1) = (q + 2) * q + 1"
    by (simp add: algebra_simps)
  then have "(q + 1) * (q + 1) mod (q + 2) = ((q + 2) * q + 1) mod (q + 2)"
    by simp
  also have "\<dots> = 1 mod (q + 2)"
    by (rule mod_mult_self4)
  also have "\<dots> = 1"
    by simp
  finally have pm: "?f (p - 1) = 1"
    by (simp add: q)
  have "\<not> inj_on ?f ?A"
  proof
    assume inj: "inj_on ?f ?A"
    have "1 \<in> ?A" and "p - 1 \<in> ?A" and "?f 1 = ?f (p - 1)"
      using assms(2) one pm by auto
    then have "1 = p - 1"
      using inj_onD [OF inj, of 1 "p - 1"] by blast
    with assms(2) show False by simp
  qed
  then have "card (?f ` ?A) \<noteq> card ?A"
    using eq_card_imp_inj_on [of ?A ?f] by auto
  moreover have "card (?f ` ?A) \<le> card ?A"
    by (rule card_image_le) simp
  ultimately have lt: "card (?f ` ?A) < card ?A"
    by simp
  have "\<not> ?A \<subseteq> ?f ` ?A"
  proof
    assume "?A \<subseteq> ?f ` ?A"
    then have "card ?A \<le> card (?f ` ?A)"
      by (intro card_mono) simp_all
    with lt show False by simp
  qed
  then obtain r where "r \<in> ?A" and "r \<notin> ?f ` ?A"
    by blast
  then show ?thesis
    by (intro bexI [of _ r]) auto
qed

lemma legendre_nonresidue:
  assumes "odd p" and "2 < p"
  shows "\<exists>r\<in>{1..<p}. legendre (int r) p = - 1"
proof -
  obtain r where r: "r \<in> {1..<p}" and nr: "\<forall>x\<in>{1..<p}. x * x mod p \<noteq> r"
    using nonresidue_exists [OF assms] by blast
  have "\<not> int p dvd int r"
    using r by (auto dest: dvd_imp_le)
  moreover have "\<not> (\<exists>x\<in>{1..<p}. (int x * int x) mod int p = int r mod int p)"
  proof
    assume "\<exists>x\<in>{1..<p}. (int x * int x) mod int p = int r mod int p"
    then obtain x where x: "x \<in> {1..<p}" and "(int x * int x) mod int p = int r mod int p"
      by blast
    then have "int (x * x mod p) = int (r mod p)"
      by (simp add: zmod_int)
    then have "x * x mod p = r mod p"
      by (simp only: of_nat_eq_iff)
    with r have "x * x mod p = r"
      by simp
    with nr x show False by blast
  qed
  ultimately have "legendre (int r) p = - 1"
    by (simp add: legendre_def)
  with r show ?thesis by blast
qed

lemma legendre_cong: "a mod int p = b mod int p \<Longrightarrow> legendre a p = legendre b p"
  by (simp add: legendre_def dvd_eq_mod_eq_0)

lemma mpz_jacobi_prime:
  assumes "2 \<le> n" and "\<forall>d. 1 < d \<and> d < n \<longrightarrow> \<not> d dvd n"
  shows "mpz_jacobi a n = legendre a n"
proof -
  have "least_factor n dvd n" and "2 \<le> least_factor n"
    using assms(1) by (simp_all add: least_factor_dvd least_factor_ge)
  moreover from this have "least_factor n \<le> n"
    using assms(1) by (intro dvd_imp_le) simp_all
  ultimately have lf: "least_factor n = n"
    using assms(2) by (metis le_neq_implies_less less_le_trans one_less_numeral_iff semiring_norm(76))
  have "mpz_jacobi a n = legendre a n * mpz_jacobi a 1"
    using assms(1) by (subst mpz_jacobi.simps) (simp add: lf Let_def)
  also have "mpz_jacobi a 1 = 1"
    by (subst mpz_jacobi.simps) simp
  finally show ?thesis by simp
qed

definition selfridge_stop :: "nat \<Rightarrow> nat \<Rightarrow> int \<Rightarrow> bool" where
  "selfridge_stop n D_ui sign \<longleftrightarrow>
     (gcd n D_ui > 1 \<and> n \<noteq> gcd n D_ui) \<or> mpz_jacobi (int D_ui * sign) n = - 1"

lemma selfridge_search_stops:
  assumes "selfridge_stop n (D + 2 * k) ((- 1) ^ k * s)"
    and "s = 1 \<or> s = - 1" and "(int D * s) mod 4 = 1"
  shows "\<exists>r. selfridge_search n D s = Some r \<and> (\<forall>D'. r = Found D' \<longrightarrow> D' mod 4 = 1)"
  using assms
proof (induction k arbitrary: D s)
  case 0
  then show ?case
    by (subst selfridge_search.simps) (auto simp: selfridge_stop_def Let_def)
next
  case (Suc k)
  show ?case
  proof (cases "selfridge_stop n D s")
    case True
    with Suc.prems show ?thesis
      by (subst selfridge_search.simps) (auto simp: selfridge_stop_def Let_def)
  next
    case False
    then have step: "selfridge_search n D s = selfridge_search n (D + 2) (- s)"
      by (subst selfridge_search.simps) (auto simp: selfridge_stop_def Let_def)
    have "selfridge_stop n (D + 2 + 2 * k) ((- 1) ^ k * (- s))"
      using Suc.prems(1) by (simp add: algebra_simps)
    moreover have "- s = 1 \<or> - s = - 1"
      using Suc.prems(2) by auto
    moreover have "(int (D + 2) * (- s)) mod 4 = 1"
      using Suc.prems(2,3) by (elim disjE; simp; presburger)
    ultimately show ?thesis
      unfolding step by (rule Suc.IH)
  qed
qed

lemma selfridge_stop_exists:
  assumes "odd n" and "2 < n" and "\<not> mpz_perfect_square_p n"
  shows "\<exists>k. selfridge_stop n (5 + 2 * k) ((- 1) ^ k)"
proof (cases "\<exists>p. 1 < p \<and> p < n \<and> p dvd n")
  case True
  then obtain p where p: "1 < p" "p < n" "p dvd n"
    by blast
  have "odd p"
    using p(3) assms(1) by (meson dvd_trans)
  show ?thesis
  proof (cases "p = 3")
    case True
    have "3 dvd gcd n 9"
      using p(3) True by simp
    then have "3 \<le> gcd n 9"
      by (rule dvd_imp_le) simp
    moreover have "n \<noteq> gcd n 9"
    proof
      assume "n = gcd n 9"
      then have "n dvd 9"
        by (metis gcd_dvd2)
      then have "n \<le> 9"
        by (rule dvd_imp_le) simp
      moreover have "3 < n" "3 dvd n"
        using p True by simp_all
      ultimately have "n = 3 * 3"
        using assms(1) by presburger
      with assms(3) show False
        unfolding mpz_perfect_square_p_iff by blast
    qed
    ultimately have "selfridge_stop n (5 + 2 * 2) ((- 1) ^ 2)"
      by (simp add: selfridge_stop_def)
    then show ?thesis ..
  next
    case False
    with \<open>odd p\<close> p(1) have "5 \<le> p"
      by presburger
    define k where "k = (p - 5) div 2"
    have pk: "5 + 2 * k = p"
      using \<open>odd p\<close> \<open>5 \<le> p\<close> unfolding k_def by presburger
    have "gcd n p = p"
      using p(3) by (simp add: gcd_proj2_iff)
    with p have "selfridge_stop n (5 + 2 * k) ((- 1) ^ k)"
      by (simp add: selfridge_stop_def pk)
    then show ?thesis ..
  qed
next
  case False
  then have prime: "\<forall>d. 1 < d \<and> d < n \<longrightarrow> \<not> d dvd n"
    by blast
  obtain r where r: "r \<in> {1..<n}" and leg: "legendre (int r) n = - 1"
    using legendre_nonresidue [OF assms(1,2)] by blast
  obtain m where m: "n = 2 * m + 1"
    using assms(1) by (auto elim: oddE)
  define X where "X = r + m * (m + 1) * (1 + 3 * r)"
  define D where "D = r + n * (n * (1 + 3 * r))"
  have DX: "D = 4 * X + 1"
    by (simp add: D_def X_def m algebra_simps)
  have "1 \<le> X"
    using r by (simp add: X_def)
  then obtain j where "X = j + 1"
    by (metis le_add_diff_inverse2)
  with DX have Dk: "5 + 2 * (2 * j) = D"
    by simp
  define k where "k = 2 * j"
  have "even k"
    by (simp add: k_def)
  note Dk = Dk [folded k_def]
  have "int D mod int n = int r mod int n"
    by (simp add: D_def)
  then have "legendre (int D) n = legendre (int r) n"
    by (rule legendre_cong)
  moreover have "2 \<le> n"
    using assms(2) by simp
  then have "mpz_jacobi (int D) n = legendre (int D) n"
    using prime by (rule mpz_jacobi_prime)
  ultimately have "mpz_jacobi (int D) n = - 1"
    using leg by simp
  moreover have "(- 1 :: int) ^ k = 1"
    using \<open>even k\<close> by simp
  ultimately have "selfridge_stop n (5 + 2 * k) ((- 1) ^ k)"
    unfolding selfridge_stop_def Dk by simp
  then show ?thesis ..
qed

lemma selfridge_search_returns:
  assumes "odd n" and "2 < n" and "\<not> mpz_perfect_square_p n"
  shows "\<exists>r. selfridge_search n 5 1 = Some r \<and> (\<forall>D. r = Found D \<longrightarrow> D mod 4 = 1)"
proof -
  obtain k where "selfridge_stop n (5 + 2 * k) ((- 1) ^ k)"
    using selfridge_stop_exists [OF assms] ..
  then have "selfridge_stop n (5 + 2 * k) ((- 1) ^ k * 1)"
    by simp
  then show ?thesis
    by (rule selfridge_search_stops) simp_all
qed

lemma c_div_exact: "D mod 4 = 1 \<Longrightarrow> 1 * 1 - 4 * c_div (1 - D) 4 = D"
proof -
  assume "D mod 4 = 1"
  then obtain q where q: "D = 4 * q + 1"
    by (metis mult_div_mod_eq)
  have "c_div (- (4 * q)) 4 = - q"
    by (cases "q < 0"; cases "q = 0") (simp_all add: c_div_def sgn_if)
  then show ?thesis
    by (simp add: q)
qed

lemma GMP_is_lucas_pseudoprime_returns: "\<exists>r. GMP_is_lucas_pseudoprime n do_strong = Inr r"
proof (cases "odd n \<and> 2 < n \<and> \<not> mpz_perfect_square_p n")
  case True
  then obtain r where r: "selfridge_search n 5 1 = Some r" and D: "\<forall>D. r = Found D \<longrightarrow> D mod 4 = 1"
    using selfridge_search_returns by blast
  show ?thesis
  proof (cases r)
    case Composite
    with True r show ?thesis
      by (simp add: GMP_is_lucas_pseudoprime_def)
  next
    case (Found D')
    with D have "1 * 1 - 4 * c_div (1 - D') 4 = D'"
      by (intro c_div_exact) simp
    with True r Found show ?thesis
      by (simp add: GMP_is_lucas_pseudoprime_def Let_def split: prod.split)
  qed
next
  case False
  then show ?thesis
    by (auto simp: GMP_is_lucas_pseudoprime_def)
qed

lemma bit_length_le: "n < 2 ^ k \<Longrightarrow> bit_length n \<le> k"
proof (induction k arbitrary: n)
  case 0
  then show ?case by (subst bit_length.simps) simp
next
  case (Suc k)
  then have "n div 2 < 2 ^ k"
    by simp
  then have "bit_length (n div 2) \<le> k"
    by (rule Suc.IH)
  then show ?case
    by (subst bit_length.simps) simp
qed

lemma GMP_miller_rabin_ui_returns: "2 \<le> base \<Longrightarrow> \<exists>r. GMP_miller_rabin_ui n base = Inr r"
  by (simp add: GMP_miller_rabin_ui_def GMP_miller_rabin_def Let_def)

text \<open>
  Claim C9.  For every \<open>n\<close> that is a perfect square, the strong Lucas-Selfridge test
  returns 0 (composite); likewise for every even \<open>n > 2\<close> and every \<open>n < 2\<close>.
\<close>

theorem lucas_rejects_squares_evens_small:
  assumes "(\<exists>r. n = r * r) \<or> (even n \<and> 2 < n) \<or> n < 2"
  shows "GMP_is_lucas_pseudoprime n True = Inr 0"
proof -
  have "n \<noteq> 2"
  proof
    assume n: "n = 2"
    with assms obtain r :: nat where r: "2 = r * r"
      by auto
    have "r \<le> 1 \<or> 2 \<le> r"
      by linarith
    then show False
    proof
      assume "r \<le> 1"
      then have "r * r \<le> 1 * 1"
        by (intro mult_le_mono)
      with r show False by simp
    next
      assume "2 \<le> r"
      then have "2 * 2 \<le> r * r"
        by (intro mult_le_mono)
      with r show False by simp
    qed
  qed
  moreover have "n < 2 \<or> even n \<or> mpz_perfect_square_p n"
    using assms unfolding mpz_perfect_square_p_iff by blast
  ultimately show ?thesis
    by (auto simp: GMP_is_lucas_pseudoprime_def)
qed

theorem lucas_rejects_squares_evens_small_witness:
  "(\<exists>r::nat. (9::nat) = r * r) \<and> odd (9::nat) \<and> GMP_is_lucas_pseudoprime 9 True = Inr 0"
proof -
  have h: "\<exists>r::nat. (9::nat) = r * r"
    by (rule exI [of _ 3]) simp
  then have "(\<exists>r::nat. (9::nat) = r * r) \<or> (even (9::nat) \<and> 2 < (9::nat)) \<or> (9::nat) < 2"
    by (rule disjI1)
  then have "GMP_is_lucas_pseudoprime 9 True = Inr 0"
    by (rule lucas_rejects_squares_evens_small)
  with h show ?thesis by simp
qed

text \<open>
  Claim C1.  For every non-negative integer \<open>n \<le> 2^64\<close>, \<open>_GMP_is_prob_prime(n)\<close> returns
  0 (composite) or 2 (prime), never 1 (probable prime); in particular it returns: the
  parameter search of the Lucas test exits and no \<open>croak\<close> is reached.
\<close>

theorem is_prob_prime_deterministic:
  assumes "n \<le> 2 ^ 64"
  shows "GMP_is_prob_prime n = Inr 0 \<or> GMP_is_prob_prime n = Inr 2"
proof (cases "n \<le> 1008")
  case True
  have "\<exists>f. GMP_trial_factor n 2 997 = Inr f"
    by (simp add: GMP_trial_factor_def)
  then obtain f where "GMP_trial_factor n 2 997 = Inr f" ..
  with True show ?thesis
    by (cases "f = 0") (simp_all add: GMP_is_prob_prime_def)
next
  case False
  obtain mr where mr: "GMP_miller_rabin_ui n 2 = Inr mr"
    using GMP_miller_rabin_ui_returns [of 2 n] by auto
  obtain sl where sl: "GMP_is_lucas_pseudoprime n True = Inr sl"
    using GMP_is_lucas_pseudoprime_returns by blast
  show ?thesis
  proof (cases "even n")
    case True
    with False show ?thesis
      by (simp add: GMP_is_prob_prime_def)
  next
    case odd: False
    then have "n \<noteq> 2 ^ 64"
      by auto
    with assms have "n < 2 ^ 64"
      by simp
    then have "bit_length n \<le> 64"
      by (rule bit_length_le)
    then have "mpz_sizeinbase2 n \<le> 64"
      by (simp add: mpz_sizeinbase2_def)
    with False mr sl show ?thesis
      by (simp add: GMP_is_prob_prime_def)
  qed
qed

theorem is_prob_prime_deterministic_witness:
  "(18446744073709551616::nat) \<le> 2 ^ 64 \<and> GMP_is_prob_prime 18446744073709551616 = Inr 0
   \<and> (7::nat) \<le> 2 ^ 64 \<and> GMP_is_prob_prime 7 = Inr 2"
proof -
  have "GMP_is_prob_prime 18446744073709551616 = Inr 0"
    using is_prob_prime_deterministic [of 18446744073709551616]
    by (simp add: GMP_is_prob_prime_def)
  moreover have "GMP_is_prob_prime 7 = Inr 2"
    using is_prob_prime_deterministic [of 7]
    by (simp add: GMP_is_prob_prime_def GMP_trial_factor_def trial_loop.simps uv_def
        prime_iterator_next_def prime_search.simps prime_p_def least_factor_def
        least_factor_from.simps)
  ultimately show ?thesis by simp
qed

section \<open>Elliptic-curve point arithmetic\<close>

text \<open>\<open>mpz_invert(r, a, n)\<close>: the inverse of \<open>a\<close> modulo \<open>n\<close>, by the extended Euclidean
  algorithm; \<open>None\<close> is the return value 0 (no inverse).\<close>

function egcd :: "nat \<Rightarrow> nat \<Rightarrow> int \<times> int" where
  "egcd a b =
     (if b = 0 then (1, 0)
      else let (u, v) = egcd b (a mod b) in (v, u - int (a div b) * v))"
  by pat_completeness auto
termination
  by (relation "measure (\<lambda>(a, b). b)") auto

declare egcd.simps [simp del]

definition mpz_invert :: "int \<Rightarrow> int \<Rightarrow> int option" where
  "mpz_invert a n =
     (if n \<le> 0 then None
      else let r = nat (a mod n)
           in if gcd r (nat n) = 1 then Some (fst (egcd r (nat n)) mod n) else None)"

text \<open>
  The struct \<open>ec_affine_point\<close> has the two fields \<open>x\<close> and \<open>y\<close>; it is a pair here.
  The point at infinity is the sentinel \<open>(0, 1)\<close>.

  \<open>ec_affine_multiply\<close> is declared in \<open>ecm.h\<close>; its definition (\<open>ecm.c\<close>) is not among
  the sources.  \<open>ecpp_check_point\<close> below takes it as the parameter \<open>mul\<close>: a function from
  \<open>(a, k, N, P)\<close> to the return value (non-zero: a factor of \<open>N\<close> was found) and the point
  stored in \<open>R\<close>.
\<close>

type_synonym ec_affine_point = "int \<times> int"

type_synonym ec_multiply = "int \<Rightarrow> int \<Rightarrow> int \<Rightarrow> ec_affine_point \<Rightarrow> int \<times> ec_affine_point"

definition ec_infinity :: ec_affine_point where
  "ec_infinity = (0, 1)"

text \<open>
  Modelled from the spec: \<open>ec_affine_multiply\<close> and the affine addition and doubling of
  \<open>ecm.c\<close>, which is not among the sources.  The spec (4.3): the curve is
  \<open>y\<^sup>2 = x\<^sup>3 + a x + b\<close> over the integers modulo \<open>N\<close>; \<open>add\<close> and \<open>double\<close> use the affine
  formulas and return \<open>FACTOR_FOUND\<close> with \<open>gcd(denom, N)\<close> when the slope denominator is
  not invertible modulo \<open>N\<close>; \<open>multiply(k, P)\<close> is a binary ladder that propagates
  \<open>FACTOR_FOUND\<close>.  A denominator that is 0 modulo \<open>N\<close> is the vertical line of the group
  law: the sum is the point at infinity.
\<close>

datatype ec_result = Point ec_affine_point | FACTOR_FOUND int

definition ec_affine_double :: "int \<Rightarrow> int \<Rightarrow> ec_affine_point \<Rightarrow> ec_result" where
  "ec_affine_double a N P =
     (if P = ec_infinity then Point ec_infinity
      else
        let (x1, y1) = P;
            denom = (2 * y1) mod N
        in if denom = 0 then Point ec_infinity
           else
             case mpz_invert denom N of
               None \<Rightarrow> FACTOR_FOUND (gcd denom N)
             | Some i \<Rightarrow>
                 let s = (3 * x1 * x1 + a) * i mod N;
                     x3 = (s * s - 2 * x1) mod N;
                     y3 = (s * (x1 - x3) - y1) mod N
                 in Point (x3, y3))"

definition ec_affine_add :: "int \<Rightarrow> int \<Rightarrow> ec_affine_point \<Rightarrow> ec_affine_point \<Rightarrow> ec_result" where
  "ec_affine_add a N P Q =
     (if P = ec_infinity then Point Q
      else if Q = ec_infinity then Point P
      else
        let (x1, y1) = P;
            (x2, y2) = Q;
            denom = (x2 - x1) mod N
        in if denom = 0 then
             (if (y1 + y2) mod N = 0 then Point ec_infinity else ec_affine_double a N P)
           else
             case mpz_invert denom N of
               None \<Rightarrow> FACTOR_FOUND (gcd denom N)
             | Some i \<Rightarrow>
                 let s = (y2 - y1) * i mod N;
                     x3 = (s * s - x1 - x2) mod N;
                     y3 = (s * (x1 - x3) - y1) mod N
                 in Point (x3, y3))"

function ec_ladder ::
  "int \<Rightarrow> int \<Rightarrow> int \<Rightarrow> ec_affine_point \<Rightarrow> ec_affine_point \<Rightarrow> int \<times> ec_affine_point" where
  "ec_ladder a N k A B =
     (if k > 0 then
        (if odd k then
           (case ec_affine_add a N B A of
              FACTOR_FOUND d \<Rightarrow> (1, ec_infinity)
            | Point B' \<Rightarrow> ec_ladder a N (k - 1) A B')
         else
           (case ec_affine_double a N A of
              FACTOR_FOUND d \<Rightarrow> (1, ec_infinity)
            | Point A' \<Rightarrow> ec_ladder a N (k div 2) A' B))
      else (0, B))"
  by pat_completeness auto
termination
  by (relation "measure (\<lambda>(a, N, k, A, B). nat k)") auto

declare ec_ladder.simps [simp del]

definition ec_affine_multiply :: ec_multiply where
  "ec_affine_multiply a k N P = ec_ladder a N k P ec_infinity"

section \<open>The point check of ECPP and its test hook\<close>

definition ecpp_check_point ::
  "ec_multiply \<Rightarrow> int \<Rightarrow> int \<Rightarrow> int \<Rightarrow> int \<Rightarrow> int \<Rightarrow> int \<Rightarrow> error + int" where
  "ecpp_check_point mul x y m q a N =
     (if q = 0 then Inl DivisionByZero
      else
        let P = (x, y);
            t = c_div m q;
            (found2, P2) = mul a t N P
        in if found2 = 0 then
             (if \<not> (fst P2 = 0 \<and> snd P2 = 1) then
                (let t = q;
                     (found1, P1) = mul a t N P2
                 in if found1 = 0 then
                      (if fst P1 = 0 \<and> snd P1 = 1 then Inr 2 else Inr 1)
                    else Inr 0)
              else Inr 1)
           else Inr 0)"

text \<open>The XS function \<open>_validate_ecpp_curve\<close>: its seven arguments are strings of decimal
  digits (anything else croaks at the boundary), so they are naturals here; \<open>b\<close> is
  parsed by nothing (\<open>/* ignore b */\<close>).\<close>

definition validate_ecpp_curve ::
  "ec_multiply \<Rightarrow> nat \<Rightarrow> nat \<Rightarrow> nat \<Rightarrow> nat \<Rightarrow> nat \<Rightarrow> nat \<Rightarrow> nat \<Rightarrow> error + int" where
  "validate_ecpp_curve mul a b n px py m q =
     (case ecpp_check_point mul (int px) (int py) (int m) (int q) (int a) (int n) of
        Inl e \<Rightarrow> Inl e
      | Inr r \<Rightarrow> Inr (if r = 2 then 1 else 0))"

lemmas ec_eval =
  ecpp_check_point_def ec_affine_multiply_def ec_ladder.simps ec_affine_add_def
  ec_affine_double_def ec_infinity_def mpz_invert_def egcd.simps c_div_def Let_def
  validate_ecpp_curve_def gcd_nat.simps [of "numeral u" "numeral v" for u v]

lemma egcd_bezout: "int a * fst (egcd a b) + int b * snd (egcd a b) = int (gcd a b)"
proof (induction a b rule: egcd.induct)
  case (1 a b)
  show ?case
  proof (cases "b = 0")
    case True
    then show ?thesis by (subst (1 2) egcd.simps) simp
  next
    case False
    obtain u v where uv: "egcd b (a mod b) = (u, v)"
      by (cases "egcd b (a mod b)")
    with 1 False have ih: "int b * u + int (a mod b) * v = int (gcd b (a mod b))"
      by simp
    have e: "egcd a b = (v, u - int (a div b) * v)"
      using False uv by (subst egcd.simps) simp
    have "int a = int (a div b) * int b + int (a mod b)"
      by (metis div_mult_mod_eq of_nat_add of_nat_mult)
    then have "int a * v + int b * (u - int (a div b) * v) = int b * u + int (a mod b) * v"
      by (simp add: algebra_simps)
    also have "\<dots> = int (gcd a b)"
      using ih False by (metis gcd.commute gcd_red_nat)
    finally show ?thesis
      by (simp add: e)
  qed
qed

lemma mpz_invert_correct: "mpz_invert a n = Some i \<Longrightarrow> a * i mod n = 1 mod n"
proof -
  assume inv: "mpz_invert a n = Some i"
  then have n: "0 < n"
    by (simp add: mpz_invert_def split: if_splits)
  define r where "r = nat (a mod n)"
  define u where "u = fst (egcd r (nat n))"
  from inv n have g: "gcd r (nat n) = 1" and i: "i = u mod n"
    by (simp_all add: mpz_invert_def Let_def r_def u_def split: if_splits)
  have "int r * u + int (nat n) * snd (egcd r (nat n)) = 1"
    using egcd_bezout [of r "nat n"] g by (simp add: u_def)
  then have "(int r * u + n * snd (egcd r (nat n))) mod n = 1 mod n"
    using n by simp
  then have "int r * u mod n = 1 mod n"
    by simp
  moreover have "int r = a mod n"
    using n by (simp add: r_def)
  ultimately have "(a mod n) * (u mod n) mod n = 1 mod n"
    by (simp add: mod_mult_right_eq)
  then show ?thesis
    by (simp add: i mod_mult_left_eq)
qed

text \<open>
  Claim C3.  \<open>ecpp_check_point(x, y, m, q, a, N)\<close> returns 2 exactly when
  \<open>P2 = (m/q) P\<close> is computed without failure, \<open>P2\<close> is not the point at infinity,
  \<open>P1 = q P2\<close> is computed without failure and \<open>P1\<close> is the point at infinity; it returns 0
  whenever a scalar multiplication it performs reports a failure (the second one is
  performed only after the first succeeded with \<open>P2\<close> not at infinity), and 1 otherwise.
  This holds for every function \<open>mul\<close> in the place of \<open>ec_affine_multiply\<close>.
\<close>

theorem ecpp_check_point_result:
  assumes "q \<noteq> 0"
    and "mul a (c_div m q) N (x, y) = (found2, P2)"
    and "mul a q N P2 = (found1, P1)"
  shows "(ecpp_check_point mul x y m q a N = Inr 2 \<longleftrightarrow>
            found2 = 0 \<and> P2 \<noteq> ec_infinity \<and> found1 = 0 \<and> P1 = ec_infinity)
       \<and> (ecpp_check_point mul x y m q a N = Inr 0 \<longleftrightarrow>
            found2 \<noteq> 0 \<or> (P2 \<noteq> ec_infinity \<and> found1 \<noteq> 0))
       \<and> (ecpp_check_point mul x y m q a N = Inr 1 \<longleftrightarrow>
            found2 = 0 \<and> (P2 = ec_infinity \<or> (found1 = 0 \<and> P1 \<noteq> ec_infinity)))"
proof -
  have P2: "P2 = ec_infinity \<longleftrightarrow> fst P2 = 0 \<and> snd P2 = 1"
    by (cases P2) (simp add: ec_infinity_def)
  have P1: "P1 = ec_infinity \<longleftrightarrow> fst P1 = 0 \<and> snd P1 = 1"
    by (cases P1) (simp add: ec_infinity_def)
  show ?thesis
    using assms by (simp add: ecpp_check_point_def Let_def P1 P2)
qed

theorem ecpp_check_point_result_witness:
  "(17::int) \<noteq> 0
   \<and> ec_affine_multiply 0 (c_div 102 17) 101 (4, 41) = (0, (75, 10))
   \<and> ec_affine_multiply 0 17 101 (75, 10) = (0, ec_infinity)
   \<and> ecpp_check_point ec_affine_multiply 4 41 102 17 0 101 = Inr 2"
proof -
  have m2: "ec_affine_multiply 0 (c_div 102 17) 101 (4, 41) = (0, (75, 10))"
    by (simp add: ec_eval)
  have m1: "ec_affine_multiply 0 17 101 (75, 10) = (0, ec_infinity)"
    by (simp add: ec_eval)
  have q: "(17::int) \<noteq> 0"
    by simp
  show ?thesis
    using ecpp_check_point_result
            [where mul = ec_affine_multiply and ?P2.0 = "(75, 10)" and ?P1.0 = ec_infinity,
             OF q m2 m1] m1 m2
    by (simp add: ec_infinity_def)
qed

lemma c_div_nat: "c_div (int m) (int q) = int (m div q)"
  by (cases "m = 0"; cases "q = 0") (simp_all add: c_div_def zdiv_int)

text \<open>
  Claim C4, as the spec states it: \<open>ecpp_validate_curve\<close> returns false when any of
  \<open>m mod q \<noteq> 0\<close>, \<open>m P \<noteq> O\<close>, the point is not on \<open>y\<^sup>2 = x\<^sup>3 + a x + b\<close> modulo \<open>N\<close>, or
  \<open>q \<le> (N\<^sup>1\<^sup>/\<^sup>4 + 1)\<^sup>2\<close> holds.  The code accepts inputs with each of these defects.  With
  \<open>N = 101\<close>, \<open>a = 0\<close>, \<open>b = 1\<close>, the point \<open>(4, 41)\<close> has order 17 on a curve of 102 points:
  \<^item> \<open>m = 103\<close>, \<open>q = 17\<close> is accepted although \<open>103 mod 17 = 1\<close> and \<open>103 P = P\<close>;
  \<^item> \<open>b = 2\<close> is accepted although \<open>(4, 41)\<close> is not on \<open>y\<^sup>2 = x\<^sup>3 + 2\<close>;
  \<^item> \<open>a = 1\<close>, \<open>b = 2\<close>, \<open>P = (4, 26)\<close>, \<open>m = 100\<close>, \<open>q = 5\<close> is accepted although
    \<open>5 \<le> (3 + 1)\<^sup>2\<close>, where 3 is the integer fourth root of 101.
\<close>

theorem validate_ecpp_curve_accepts_defects:
  "validate_ecpp_curve ec_affine_multiply 0 1 101 4 41 103 17 = Inr 1
   \<and> (103::nat) mod 17 \<noteq> 0
   \<and> ec_affine_multiply 0 103 101 (4, 41) = (0, (4, 41))
   \<and> validate_ecpp_curve ec_affine_multiply 0 2 101 4 41 102 17 = Inr 1
   \<and> (41 * 41 :: nat) mod 101 \<noteq> (4 * 4 * 4 + 0 * 4 + 2) mod 101
   \<and> validate_ecpp_curve ec_affine_multiply 1 2 101 4 26 100 5 = Inr 1
   \<and> (5::nat) \<le> (mpz_root 101 4 + 1) * (mpz_root 101 4 + 1)"
proof -
  have "validate_ecpp_curve ec_affine_multiply 0 1 101 4 41 103 17 = Inr 1"
    by (simp add: ec_eval)
  moreover have "ec_affine_multiply 0 103 101 (4, 41) = (0, (4, 41))"
    by (simp add: ec_eval)
  moreover have "validate_ecpp_curve ec_affine_multiply 0 2 101 4 41 102 17 = Inr 1"
    by (simp add: ec_eval)
  moreover have "validate_ecpp_curve ec_affine_multiply 1 2 101 4 26 100 5 = Inr 1"
    by (simp add: ec_eval)
  moreover have "mpz_root 101 4 = 3"
    by (simp add: mpz_root.simps)
  ultimately show ?thesis
    by simp
qed

text \<open>
  Claim C4, amended: \<open>ecpp_validate_curve\<close> returns true exactly when
  \<open>ecpp_check_point(Px, Py, m, q, a, N)\<close> returns 2, that is when \<open>P2 = \<lfloor>m/q\<rfloor> P\<close> is computed
  without failure and is not the point at infinity and \<open>q P2\<close> is computed without failure
  and is the point at infinity; otherwise it returns false.  The result does not depend on
  \<open>b\<close>, depends on \<open>m\<close> only through \<open>\<lfloor>m/q\<rfloor>\<close>, and \<open>q\<close> is not compared with any bound.
\<close>

theorem validate_ecpp_curve_result:
  assumes "q \<noteq> 0"
    and "mul (int a) (int (m div q)) (int n) (int px, int py) = (found2, P2)"
    and "mul (int a) (int q) (int n) P2 = (found1, P1)"
  shows "validate_ecpp_curve mul a b n px py m q =
           Inr (if found2 = 0 \<and> P2 \<noteq> ec_infinity \<and> found1 = 0 \<and> P1 = ec_infinity
                then 1 else 0)"
proof -
  have P2: "P2 = ec_infinity \<longleftrightarrow> fst P2 = 0 \<and> snd P2 = 1"
    by (cases P2) (simp add: ec_infinity_def)
  have P1: "P1 = ec_infinity \<longleftrightarrow> fst P1 = 0 \<and> snd P1 = 1"
    by (cases P1) (simp add: ec_infinity_def)
  show ?thesis
    using assms
    by (simp add: validate_ecpp_curve_def ecpp_check_point_def c_div_nat Let_def P1 P2)
qed

theorem validate_ecpp_curve_result_witness:
  "(17::nat) \<noteq> 0
   \<and> ec_affine_multiply (int 0) (int (102 div 17)) (int 101) (int 4, int 41) = (0, (75, 10))
   \<and> ec_affine_multiply (int 0) (int 17) (int 101) (75, 10) = (0, ec_infinity)
   \<and> validate_ecpp_curve ec_affine_multiply 0 1 101 4 41 102 17 = Inr 1
   \<and> validate_ecpp_curve ec_affine_multiply 0 1 101 4 41 102 3 = Inr 0"
proof -
  have m2: "ec_affine_multiply (int 0) (int (102 div 17)) (int 101) (int 4, int 41) = (0, (75, 10))"
    by (simp add: ec_eval)
  have m1: "ec_affine_multiply (int 0) (int 17) (int 101) (75, 10) = (0, ec_infinity)"
    by (simp add: ec_eval)
  have q: "(17::nat) \<noteq> 0"
    by simp
  have "validate_ecpp_curve ec_affine_multiply 0 1 101 4 41 102 3 = Inr 0"
    by (simp add: ec_eval)
  then show ?thesis
    using validate_ecpp_curve_result
            [where mul = ec_affine_multiply and ?P2.0 = "(75, 10)" and ?P1.0 = ec_infinity
               and b = 1, OF q m2 m1] m1 m2
    by (simp add: ec_infinity_def)
qed

section \<open>Curve parameters and the twist generator\<close>









lemma Bex_interval_list: "(\<exists>x\<in>{m..<n}. P x) \<longleftrightarrow> list_ex P [m..<n]"
  by (simp add: list_ex_iff)

lemmas jacobi_eval =
  mpz_jacobi.simps [of _ "numeral u" for u] least_factor_def
  least_factor_from.simps [of "numeral u" "numeral v" for u v] legendre_def
  Bex_interval_list upt_rec [of "numeral u" "numeral v" for u v] upt_rec [of 1 "numeral v" for v] Let_def
  mpz_jacobi.simps [of _ 1] mpz_jacobi.simps [of _ "Suc 0"] upt_rec [of "Suc 0" "numeral v" for v]
  numeral_2_eq_2 [symmetric]




section \<open>ECPP: the factoring stage\<close>

text \<open>
  \<open>check_for_factor2\<close> drives two factoring routines.  \<open>_GMP_pminus1_factor(n, f, B1, B2)\<close>
  and \<open>_GMP_ecm_factor_projective(n, f, B1, ncurves)\<close> (the latter is not among the sources
  and draws from the global random state) are parameters of the model: each returns its
  \<open>int\<close> result together with the value it leaves in \<open>f\<close>.  What is proved below holds for
  every pair of such routines.  The calls made are recorded in the ghost field \<open>calls\<close>,
  as \<open>_GMP_pminus1_factor\<close> prints them at verbosity 3.
\<close>

datatype factor_call =
    PMINUS1 nat nat nat   \<comment> \<open>\<open>n\<close>, \<open>B1\<close>, \<open>B2\<close>\<close>
  | ECM nat nat nat       \<comment> \<open>\<open>n\<close>, \<open>B1\<close>, number of curves\<close>

record 'r factor_env =
  pminus1_factor :: "nat \<Rightarrow> nat \<Rightarrow> nat \<Rightarrow> int \<times> nat"
  ecm_factor_projective :: "nat \<Rightarrow> nat \<Rightarrow> nat \<Rightarrow> 'r \<Rightarrow> (int \<times> nat) \<times> 'r"

text \<open>The state that the ECPP routines share: the discriminant list \<open>dlist\<close> (up to its
  terminating 0), the saved factors \<open>sfacs\<close> (\<open>nsfacs\<close> is its length), the global random
  state, the proof text (one tuple \<open>(N, a, b, m, q, Px, Py)\<close> per line), and three ghost
  fields: the factoring calls made, the pairs (level, stage) for which an iteration of the
  factoring-stage loop of \<open>ecpp_down\<close> was started, and the triples (level, \<open>Ni\<close>, \<open>q\<close>)
  for which \<open>check_for_factor2\<close> returned 1.\<close>

record 'r ecpp_state =
  dlist :: "nat list"
  sfacs :: "nat list"
  randstate :: 'r
  prooftext :: "(nat \<times> int \<times> int \<times> int \<times> nat \<times> int \<times> int) list"
  calls :: "factor_call list"
  visited :: "(nat \<times> int) list"
  found :: "(nat \<times> nat \<times> nat) list"

definition MAX_SFACS :: nat where
  "MAX_SFACS = 1000"

definition INT_MAX :: int where
  "INT_MAX = 2147483647"

text \<open>\<open>if (!success) success = _GMP_pminus1_factor(n, f, B1, B2);\<close> and the same for ECM.\<close>

definition try_pminus1 ::
  "'r factor_env \<Rightarrow> nat \<Rightarrow> nat \<Rightarrow> nat \<Rightarrow> int \<times> nat \<times> 'r ecpp_state \<Rightarrow> int \<times> nat \<times> 'r ecpp_state" where
  "try_pminus1 env n B1 B2 = (\<lambda>(success, f, st).
     if success = 0 then
       (let (r, f') = pminus1_factor env n B1 B2
        in (r, f', st\<lparr>calls := calls st @ [PMINUS1 n B1 B2]\<rparr>))
     else (success, f, st))"

definition try_ecm ::
  "'r factor_env \<Rightarrow> nat \<Rightarrow> nat \<Rightarrow> nat \<Rightarrow> int \<times> nat \<times> 'r ecpp_state \<Rightarrow> int \<times> nat \<times> 'r ecpp_state" where
  "try_ecm env n B1 ncurves = (\<lambda>(success, f, st).
     if success = 0 then
       (let ((r, f'), rs) = ecm_factor_projective env n B1 ncurves (randstate st)
        in (r, f', st\<lparr>randstate := rs, calls := calls st @ [ECM n B1 ncurves]\<rparr>))
     else (success, f, st))"

text \<open>\<open>while (!success && sfaci < *nsfacs)\<close>: try the factors saved by earlier calls.\<close>

function sfacs_scan :: "nat \<Rightarrow> nat list \<Rightarrow> int \<Rightarrow> nat \<Rightarrow> nat \<Rightarrow> int \<times> nat \<times> nat" where
  "sfacs_scan n sf success f sfaci =
     (if success = 0 \<and> sfaci < length sf then
        (if sf ! sfaci dvd n then sfacs_scan n sf 1 (sf ! sfaci) (sfaci + 1)
         else sfacs_scan n sf success f (sfaci + 1))
      else (success, f, sfaci))"
  by pat_completeness auto
termination
  by (relation "measure (\<lambda>(n, sf, success, f, sfaci). length sf - sfaci)") auto

declare sfacs_scan.simps [simp del]

text \<open>One pass of the body of \<open>while (success)\<close> from \<open>success = 0\<close> to the end of the
  stage-dependent block.  \<open>stage\<close> is a C \<open>int\<close>; \<open>8000 * (stage-4) * (stage-4) * (stage-4)\<close>
  is computed in \<open>int\<close>, and its overflow (undefined behaviour, from stage 69 on) is an
  error of the model.\<close>

definition cff2_attempt ::
  "'r factor_env \<Rightarrow> int \<Rightarrow> nat \<Rightarrow> nat \<Rightarrow> nat \<Rightarrow> 'r ecpp_state
     \<Rightarrow> error + (int \<times> nat \<times> nat \<times> 'r ecpp_state)" where
  "cff2_attempt env stage n f sfaci st =
     (let B1 = 300 + 3 * mpz_sizeinbase2 n;
          (success, f, st) =
            (if stage \<ge> 1 then try_pminus1 env n B1 (10 * B1) (0, f, st) else (0, f, st));
          (success, f, sfaci) = sfacs_scan n (sfacs st) success f sfaci
      in if stage > 1 \<and> success = 0 then
           (if stage = 2 then
              (let (success, f, st) =
                     try_ecm env n 250 4 (try_pminus1 env n (5 * B1) (5 * 20 * B1) (success, f, st))
               in Inr (success, f, sfaci, st))
            else if stage = 3 then
              (let (success, f, st) =
                     try_ecm env n 500 4 (try_pminus1 env n (25 * B1) (25 * 20 * B1) (success, f, st))
               in Inr (success, f, sfaci, st))
            else if stage = 4 then
              (let (success, f, st) =
                     try_ecm env n 1000 10 (try_pminus1 env n (200 * B1) (200 * 20 * B1) (success, f, st))
               in Inr (success, f, sfaci, st))
            else
              (let B = 8000 * (stage - 4) * (stage - 4) * (stage - 4)
               in if B > INT_MAX then Inl SignedOverflow
                  else
                    (let (success, f, st) = try_ecm env n (nat B) (nat (5 + stage)) (success, f, st)
                     in Inr (success, f, sfaci, st))))
         else Inr (success, f, sfaci, st))"

text \<open>The loop \<open>while (success)\<close>.  \<open>mpz_divexact(n, n, f)\<close> is exact division; the
  factoring routines return divisors of \<open>n\<close>, and a division by 0 is an error.\<close>

function cff2_loop ::
  "'r factor_env \<Rightarrow> nat \<Rightarrow> int \<Rightarrow> nat \<Rightarrow> nat \<Rightarrow> nat \<Rightarrow> 'r ecpp_state
     \<Rightarrow> error + ((int \<times> nat) \<times> 'r ecpp_state)" where
  "cff2_loop env fmin stage n f sfaci st =
     (if n \<le> fmin then Inr ((0, f), st)
      else
        case GMP_is_prob_prime n of
          Inl e \<Rightarrow> Inl e
        | Inr pp \<Rightarrow>
            if pp \<noteq> 0 then Inr ((if n > fmin then 1 else 0, n), st)
            else
              case cff2_attempt env stage n f sfaci st of
                Inl e \<Rightarrow> Inl e
              | Inr (success, f, sfaci, st) \<Rightarrow>
                  if success \<noteq> 0 then
                    (if f = 1 \<or> f = n then Inl FactoringError
                     else
                       let st = (if stage > 1 \<and> length (sfacs st) < MAX_SFACS
                                 then st\<lparr>sfacs := sfacs st @ [f]\<rparr> else st)
                       in case (if f > fmin then GMP_is_prob_prime f else Inr 0) of
                            Inl e \<Rightarrow> Inl e
                          | Inr pf \<Rightarrow>
                              if pf \<noteq> 0 then Inr ((1, f), st)
                              else if f = 0 then Inl DivisionByZero
                              else cff2_loop env fmin stage (n div f) f sfaci st)
                  else Inr ((- 1, n), st))"
  by pat_completeness auto
termination
  by (relation "measure (\<lambda>(env, fmin, stage, n, f, sfaci, st). n)")
     (auto intro!: div_less_dividend)

declare cff2_loop.simps [simp del]

text \<open>The trial division at the start of \<open>check_for_factor2\<close>.  \<open>n\<close> is positive there
  (it exceeds \<open>fmin\<close>) and \<open>tf\<close> is a prime; on \<open>n = 0\<close> the C loop would not end.\<close>

function divide_out :: "nat \<Rightarrow> nat \<Rightarrow> nat" where
  "divide_out n tf = (if tf dvd n \<and> 0 < n \<and> 1 < tf then divide_out (n div tf) tf else n)"
  by pat_completeness auto
termination
  by (relation "measure (\<lambda>(n, tf). n)") (auto intro!: div_less_dividend)

declare divide_out.simps [simp del]

function cff2_trial :: "nat \<Rightarrow> nat \<Rightarrow> nat" where
  "cff2_trial n tf =
     (if tf < 3000 then
        (if n < tf * tf then n
         else cff2_trial (divide_out n tf) (prime_iterator_next tf))
      else n)"
  by pat_completeness auto
termination
proof (relation "measure (\<lambda>(n, tf). 3000 - tf)")
  show "wf (measure (\<lambda>(n, tf). 3000 - tf))"
    by simp
next
  fix n tf :: nat
  assume "tf < 3000"
  with prime_iterator_next_gt [of tf]
  show "((divide_out n tf, prime_iterator_next tf), (n, tf)) \<in> measure (\<lambda>(n, tf). 3000 - tf)"
    by simp
qed

declare cff2_trial.simps [simp del]

text \<open>\<open>check_for_factor2(f, inputn, fmin, n, stage, sfacs, nsfacs)\<close>.  The value is the
  \<open>int\<close> returned and the value left in \<open>f\<close>; \<open>n\<close> is scratch space of the caller.\<close>

definition check_for_factor2 ::
  "'r factor_env \<Rightarrow> nat \<Rightarrow> int \<Rightarrow> nat \<Rightarrow> int \<Rightarrow> 'r ecpp_state
     \<Rightarrow> error + ((int \<times> nat) \<times> 'r ecpp_state)" where
  "check_for_factor2 env f inputn fmin stage st =
     (let n = inputn
      in if n \<le> int fmin then Inr ((0, f), st)
         else
           let n = cff2_trial (nat n) 2
           in cff2_loop env fmin stage n f 0 st)"

section \<open>Properties of the factoring stage\<close>

lemma cff2_loop_found:
  "cff2_loop env fmin stage n f sfaci st = Inr ((1, q), st')
   \<Longrightarrow> fmin < q \<and> (\<exists>r. GMP_is_prob_prime q = Inr r \<and> r \<noteq> 0)"
proof (induction env fmin stage n f sfaci st rule: cff2_loop.induct)
  case (1 env fmin stage n f sfaci st)
  from "1.prems" show ?case
    apply (subst (asm) cff2_loop.simps)
    apply (simp split: if_splits sum.splits prod.splits add: Let_def)
    using "1.IH"
    apply (auto split: if_splits)
    done
qed

lemma check_for_factor2_found:
  "check_for_factor2 env f inputn fmin stage st = Inr ((1, q), st')
   \<Longrightarrow> fmin < q \<and> (\<exists>r. GMP_is_prob_prime q = Inr r \<and> r \<noteq> 0)"
  by (auto simp: check_for_factor2_def Let_def split: if_splits dest: cff2_loop_found)









section \<open>ECPP: the recursion\<close>

text \<open>
  The routines of \<open>ecpp_down\<close> whose definitions are not among the sources are fields of
  the environment: \<open>poly_class_degrees\<close> (the list of discriminants, without its
  terminating 0), \<open>poly_class_poly(D, NULL, &type)\<close> (the degree and the type of the class
  polynomial, degree 0 when there is none) and \<open>modified_cornacchia(u, v, D, N)\<close> (its
  return value with \<open>u\<close> and \<open>v\<close>).  \<open>find_curve\<close> (\<open>ecpp.c\<close>, line 446) is a field as well:
  it draws random points in loops without a bound and finds polynomial roots with routines
  that are absent; its value here is its return value with \<open>a\<close>, \<open>b\<close> and the point.
  What is proved below holds for every environment.
\<close>

record 'r ecpp_env =
  factoring :: "'r factor_env"
  poly_class_degrees :: "nat list"
  poly_class_poly :: "int \<Rightarrow> nat \<times> int"
  modified_cornacchia :: "int \<Rightarrow> nat \<Rightarrow> int \<times> int \<times> int"
  find_curve :: "int \<Rightarrow> int \<Rightarrow> nat \<Rightarrow> nat \<Rightarrow> 'r \<Rightarrow> (int \<times> int \<times> int \<times> int \<times> int) \<times> 'r"

text \<open>The local variables of \<open>ecpp_down\<close> that outlive an iteration.\<close>

record ecpp_frame =
  fr_a :: int
  fr_b :: int
  fr_m :: int
  fr_q :: nat
  fr_Px :: int
  fr_Py :: int

text \<open>How a loop of \<open>ecpp_down\<close> is left: it runs to its end, or \<open>goto end_down\<close> with the
  current \<open>downresult\<close>.\<close>

datatype 'a flow = Continue 'a | End_down int 'a

type_synonym 'r down = "nat \<Rightarrow> nat \<Rightarrow> int \<Rightarrow> 'r ecpp_state \<Rightarrow> error + (int \<times> 'r ecpp_state)"

text \<open>\<open>_GMP_is_prob_prime\<close> on a signed value: a negative number is below 1009 and is
  handed to \<open>_GMP_trial_factor\<close>, which returns 1 for it, so the result is 0.\<close>

definition GMP_is_prob_prime_z :: "int \<Rightarrow> error + int" where
  "GMP_is_prob_prime_z m = (if m < 0 then Inr 0 else GMP_is_prob_prime (nat m))"

text \<open>The last loop of \<open>choose_m\<close>: \<open>m\<close> must not be prime.\<close>

fun clear_primes :: "int list \<Rightarrow> error + int list" where
  "clear_primes [] = Inr []"
| "clear_primes (m # ms) =
     (case (if m \<noteq> 0 then GMP_is_prob_prime_z m else Inr 0) of
        Inl e \<Rightarrow> Inl e
      | Inr r \<Rightarrow>
          (case clear_primes ms of
             Inl e \<Rightarrow> Inl e
           | Inr ms' \<Rightarrow> Inr ((if r \<noteq> 0 then 0 else m) # ms')))"

definition choose_m :: "int \<Rightarrow> int \<Rightarrow> int \<Rightarrow> nat \<Rightarrow> error + int list" where
  "choose_m D u v N =
     (let Nplus1 = int N + 1;
          m0 = Nplus1 + u;
          m1 = Nplus1 - u;
          rest =
            (if D = - 3 then
               (let t = c_div (v * 3 + u) 2;
                    t' = c_div (v * (- 3) + u) 2
                in [Nplus1 + t, Nplus1 - t, Nplus1 + t', Nplus1 - t'])
             else if D = - 4 then
               (let t = v * 2 in [Nplus1 + t, Nplus1 - t, 0, 0])
             else [0, 0, 0, 0])
      in clear_primes (m0 # m1 # rest))"

text \<open>The loop \<open>for (k = 0; k < 6; k++)\<close>.  \<open>rec\<close> is the recursive call of \<open>ecpp_down\<close>.\<close>

function k_loop ::
  "'r down \<Rightarrow> 'r ecpp_env \<Rightarrow> nat \<Rightarrow> nat \<Rightarrow> nat \<Rightarrow> int \<Rightarrow> int \<Rightarrow> nat \<Rightarrow> int list \<Rightarrow> nat
     \<Rightarrow> ecpp_frame \<times> 'r ecpp_state \<Rightarrow> error + (ecpp_frame \<times> 'r ecpp_state) flow" where
  "k_loop rec env i Ni minfactor stage D dnum mlist k s =
     (if k < 6 then
        (case s of (fr, st) \<Rightarrow>
           case check_for_factor2 (factoring env) (fr_q fr) (mlist ! k) minfactor stage st of
             Inl e \<Rightarrow> Inl e
           | Inr ((facresult, q), st) \<Rightarrow>
               let fr = fr\<lparr>fr_q := q\<rparr>
               in if facresult \<le> 0 then
                    k_loop rec env i Ni minfactor stage D dnum mlist (k + 1) (fr, st)
                  else
                    let fr = fr\<lparr>fr_m := mlist ! k\<rparr>;
                        st = st\<lparr>found := found st @ [(i, Ni, q)]\<rparr>
                    in case rec (i + 1) q stage st of
                         Inl e \<Rightarrow> Inl e
                       | Inr (downresult, st) \<Rightarrow>
                           if downresult = 0 then Inr (End_down downresult (fr, st))
                           else if downresult = 1 then
                             k_loop rec env i Ni minfactor stage D dnum mlist (k + 1) (fr, st)
                           else
                             case find_curve env D (fr_m fr) q Ni (randstate st) of
                               ((curveresult, a, b, Px, Py), rs) \<Rightarrow>
                                 let fr = fr\<lparr>fr_a := a, fr_b := b, fr_Px := Px, fr_Py := Py\<rparr>;
                                     st = st\<lparr>randstate := rs\<rparr>
                                 in if curveresult = 1 then
                                      k_loop rec env i Ni minfactor stage D dnum mlist (k + 1)
                                        (fr, st\<lparr>dlist := (dlist st)[dnum := 1]\<rparr>)
                                    else Inr (End_down downresult (fr, st)))
      else Inr (Continue s))"
  by pat_completeness auto
termination
  by (relation "measure (\<lambda>(rec, env, i, Ni, minfactor, stage, D, dnum, mlist, k, s). 6 - k)") auto

declare k_loop.simps [simp del]

text \<open>The loop \<open>for (dnum = 0; dlist[dnum] > 0; dnum++)\<close>, as a recursion over the indices
  of the list: the loop stores 1 in entries and never moves the terminating 0.\<close>

fun d_loop ::
  "'r down \<Rightarrow> 'r ecpp_env \<Rightarrow> nat \<Rightarrow> nat \<Rightarrow> nat \<Rightarrow> int \<Rightarrow> nat list
     \<Rightarrow> ecpp_frame \<times> 'r ecpp_state \<Rightarrow> error + (ecpp_frame \<times> 'r ecpp_state) flow" where
  "d_loop rec env i Ni minfactor stage [] s = Inr (Continue s)"
| "d_loop rec env i Ni minfactor stage (dnum # dnums) (fr, st) =
     (if dnum < length (dlist st) \<and> dlist st ! dnum > 0 then
        (let D = - int (dlist st ! dnum)
         in if D = - 1 then d_loop rec env i Ni minfactor stage dnums (fr, st)
            else if (- D) mod 4 \<noteq> 3 \<and> (- D) mod 16 \<noteq> 4 \<and> (- D) mod 16 \<noteq> 8 then
              Inl InvalidDiscriminant
            else
              let (poly_degree, poly_type) = poly_class_poly env D
              in if poly_degree = 0 then d_loop rec env i Ni minfactor stage dnums (fr, st)
                 else if mpz_jacobi D Ni \<noteq> 1 then
                   d_loop rec env i Ni minfactor stage dnums (fr, st)
                 else
                   let (ok, u, v) = modified_cornacchia env D Ni
                   in if ok = 0 then d_loop rec env i Ni minfactor stage dnums (fr, st)
                      else
                        case choose_m D u v Ni of
                          Inl e \<Rightarrow> Inl e
                        | Inr mlist \<Rightarrow>
                            (case k_loop rec env i Ni minfactor stage D dnum mlist 0 (fr, st) of
                               Inl e \<Rightarrow> Inl e
                             | Inr (End_down r s) \<Rightarrow> Inr (End_down r s)
                             | Inr (Continue s) \<Rightarrow>
                                 d_loop rec env i Ni minfactor stage dnums s))
      else Inr (Continue (fr, st)))"

text \<open>The loop \<open>for (stage = (i == 0) ? facstage : 1; stage <= facstage; stage++)\<close>.\<close>

function stage_loop ::
  "'r down \<Rightarrow> 'r ecpp_env \<Rightarrow> nat \<Rightarrow> nat \<Rightarrow> nat \<Rightarrow> int \<Rightarrow> int
     \<Rightarrow> ecpp_frame \<times> 'r ecpp_state \<Rightarrow> error + (ecpp_frame \<times> 'r ecpp_state) flow" where
  "stage_loop rec env i Ni minfactor facstage stage s =
     (if stage \<le> facstage then
        (case s of (fr, st) \<Rightarrow>
           let st = st\<lparr>visited := visited st @ [(i, stage)]\<rparr>
           in case d_loop rec env i Ni minfactor stage [0..<length (dlist st)] (fr, st) of
                Inl e \<Rightarrow> Inl e
              | Inr (End_down r s) \<Rightarrow> Inr (End_down r s)
              | Inr (Continue s) \<Rightarrow> stage_loop rec env i Ni minfactor facstage (stage + 1) s)
      else Inr (Continue s))"
  by pat_completeness auto
termination
  by (relation "measure (\<lambda>(rec, env, i, Ni, minfactor, facstage, stage, s). nat (facstage + 1 - stage))")
     auto

declare stage_loop.simps [simp del]

definition ecpp_stages ::
  "'r down \<Rightarrow> 'r ecpp_env \<Rightarrow> nat \<Rightarrow> nat \<Rightarrow> nat \<Rightarrow> int
     \<Rightarrow> ecpp_frame \<times> 'r ecpp_state \<Rightarrow> error + (ecpp_frame \<times> 'r ecpp_state) flow" where
  "ecpp_stages rec env i Ni minfactor facstage s =
     stage_loop rec env i Ni minfactor facstage (if i = 0 then facstage else 1) s"

text \<open>\<open>ecpp_down(i, Ni, facstage, dlist, sfacs, nsfacs, prooftextptr)\<close>.  The recursion is
  on a factor \<open>q\<close> of a number near \<open>Ni\<close> that an environment supplies, so the model bounds
  its depth by \<open>fuel\<close>.\<close>

primrec ecpp_down :: "nat \<Rightarrow> 'r ecpp_env \<Rightarrow> 'r down" where
  "ecpp_down 0 env = (\<lambda>i Ni facstage st. Inl OutOfFuel)"
| "ecpp_down (Suc fuel) env = (\<lambda>i Ni facstage st.
     case GMP_is_prob_prime Ni of
       Inl e \<Rightarrow> Inl e
     | Inr k \<Rightarrow>
         if k = 0 then Inr (0, st)
         else if k = 2 then Inr (2, st)
         else
           let fr = \<lparr>fr_a = 0, fr_b = 0, fr_m = 0, fr_q = 0, fr_Px = 0, fr_Py = 0\<rparr>;
               minfactor = mpz_root Ni 4;
               minfactor = minfactor + 1;
               minfactor = minfactor * minfactor
           in case ecpp_stages (ecpp_down fuel env) env i Ni minfactor facstage (fr, st) of
                Inl e \<Rightarrow> Inl e
              | Inr (Continue (fr, st)) \<Rightarrow> Inr (1, st)
              | Inr (End_down downresult (fr, st)) \<Rightarrow>
                  if downresult = 2 then
                    Inr (downresult,
                         st\<lparr>prooftext :=
                              (Ni, fr_a fr, fr_b fr, fr_m fr, fr_q fr, fr_Px fr, fr_Py fr)
                              # prooftext st\<rparr>)
                  else Inr (downresult, st))"

text \<open>The loop \<open>for (fstage = 1; fstage < 20; fstage++)\<close> of \<open>_GMP_ecpp\<close>; \<open>down\<close> is the
  call \<open>ecpp_down(0, N, fstage, ...)\<close>, and the value is \<open>result\<close>.\<close>

function ecpp_fstage_loop ::
  "(int \<Rightarrow> 's \<Rightarrow> error + (int \<times> 's)) \<Rightarrow> int \<Rightarrow> int \<Rightarrow> 's \<Rightarrow> error + (int \<times> 's)" where
  "ecpp_fstage_loop down fstage result st =
     (if fstage < 20 then
        (case down fstage st of
           Inl e \<Rightarrow> Inl e
         | Inr (result, st) \<Rightarrow>
             if result \<noteq> 1 then Inr (result, st)
             else ecpp_fstage_loop down (fstage + 1) result st)
      else Inr (result, st))"
  by pat_completeness auto
termination
  by (relation "measure (\<lambda>(down, fstage, result, st). nat (20 - fstage))") auto

declare ecpp_fstage_loop.simps [simp del]

definition GMP_ecpp :: "nat \<Rightarrow> 'r ecpp_env \<Rightarrow> nat \<Rightarrow> 'r \<Rightarrow> error + (int \<times> 'r ecpp_state)" where
  "GMP_ecpp fuel env N rs =
     (let st = \<lparr>dlist = poly_class_degrees env, sfacs = [], randstate = rs, prooftext = [],
                calls = [], visited = [], found = []\<rparr>
      in if gcd N 223092870 \<noteq> 1 then
           (case GMP_is_prob_prime N of Inl e \<Rightarrow> Inl e | Inr r \<Rightarrow> Inr (r, st))
         else ecpp_fstage_loop (ecpp_down fuel env 0 N) 1 1 st)"

section \<open>The driver loop\<close>

text \<open>The driver in the words of the spec: for each \<open>fac_stage\<close> of a list in order, call
  \<open>prove\<close>; return the first result that is not NOT_YET (1); return PROBABLE_PRIME (1)
  when every call returned NOT_YET.\<close>

fun try_stages ::
  "(int \<Rightarrow> 's \<Rightarrow> error + (int \<times> 's)) \<Rightarrow> int list \<Rightarrow> 's \<Rightarrow> error + (int \<times> 's)" where
  "try_stages prove [] st = Inr (1, st)"
| "try_stages prove (fac_stage # rest) st =
     (case prove fac_stage st of
        Inl e \<Rightarrow> Inl e
      | Inr (r, st') \<Rightarrow> if r \<noteq> 1 then Inr (r, st') else try_stages prove rest st')"

lemma ecpp_fstage_loop_upto:
  "fstage \<le> 20 \<Longrightarrow> result = 1 \<Longrightarrow>
   ecpp_fstage_loop down fstage result st = try_stages down [fstage..19] st"
proof (induction down fstage result st rule: ecpp_fstage_loop.induct)
  case (1 down fstage result st)
  show ?case
  proof (cases "fstage < 20")
    case False
    with "1.prems" have "fstage = 20"
      by simp
    with "1.prems" show ?thesis
      by (subst ecpp_fstage_loop.simps) simp
  next
    case True
    then have up: "[fstage..19] = fstage # [fstage + 1..19]"
      by (subst upto.simps) simp
    show ?thesis
    proof (cases "down fstage st")
      case (Inl e)
      with True show ?thesis
        by (subst ecpp_fstage_loop.simps) (simp add: up)
    next
      case (Inr p)
      obtain r st1 where p: "p = (r, st1)"
        by (cases p)
      show ?thesis
      proof (cases "r \<noteq> 1")
        case True
        with \<open>fstage < 20\<close> Inr p show ?thesis
          by (subst ecpp_fstage_loop.simps) (simp add: up)
      next
        case False
        then have r: "r = 1" by simp
        have "ecpp_fstage_loop down (fstage + 1) r st1 = try_stages down [fstage + 1..19] st1"
          using "1.IH" [OF True Inr p [symmetric] _] \<open>fstage < 20\<close> r by simp
        with \<open>fstage < 20\<close> Inr p r show ?thesis
          by (subst ecpp_fstage_loop.simps) (simp add: up)
      qed
    qed
  qed
qed

text \<open>
  Claim C5, as the spec states it: the driver calls \<open>prove\<close> with \<open>fac_stage\<close> from 1 through
  20.  The loop of \<open>_GMP_ecpp\<close> is \<open>for (fstage = 1; fstage < 20; fstage++)\<close>: with a \<open>prove\<close>
  that records its \<open>fac_stage\<close> and returns NOT_YET, the calls are those for 1 to 19, and the
  driver of the spec would make a twentieth.
\<close>

theorem ecpp_fstage_loop_stops_at_19:
  "ecpp_fstage_loop (\<lambda>fstage st. Inr (1, st @ [fstage])) 1 1 []
     = Inr (1, [1, 2, 3, 4, 5, 6, 7, 8, 9, 10, 11, 12, 13, 14, 15, 16, 17, 18, 19])
   \<and> try_stages (\<lambda>fstage st. Inr (1, st @ [fstage])) [1..20] []
     = Inr (1, [1, 2, 3, 4, 5, 6, 7, 8, 9, 10, 11, 12, 13, 14, 15, 16, 17, 18, 19, 20])
   \<and> ecpp_fstage_loop (\<lambda>fstage st. Inr (1, st @ [fstage])) 1 1 []
     \<noteq> try_stages (\<lambda>fstage st. Inr (1, st @ [fstage])) [1..20] []"
  by (simp add: ecpp_fstage_loop.simps upto.simps)

text \<open>
  Claim C5, amended: when \<open>gcd(N, 223092870) = 1\<close>, \<open>_GMP_ecpp\<close> calls \<open>ecpp_down\<close> with
  \<open>facstage\<close> taking each value from 1 through 19 in order, stops at the first call whose
  result is not 1 (NOT_YET) and returns that result, and returns 1 (PROBABLE_PRIME) when
  every call returns 1; when \<open>gcd(N, 223092870) \<noteq> 1\<close> it returns \<open>_GMP_is_prob_prime(N)\<close>
  and calls nothing.
\<close>

theorem GMP_ecpp_stages:
  "GMP_ecpp fuel env N rs =
     (let st = \<lparr>dlist = poly_class_degrees env, sfacs = [], randstate = rs, prooftext = [],
                calls = [], visited = [], found = []\<rparr>
      in if gcd N 223092870 \<noteq> 1 then
           (case GMP_is_prob_prime N of Inl e \<Rightarrow> Inl e | Inr r \<Rightarrow> Inr (r, st))
         else try_stages (ecpp_down fuel env 0 N)
                [1, 2, 3, 4, 5, 6, 7, 8, 9, 10, 11, 12, 13, 14, 15, 16, 17, 18, 19] st)"
proof -
  have "[1..19] = [1, 2, 3, 4, 5, 6, 7, 8, 9, 10, 11, 12, 13, 14, 15, 16, 17, 18, 19::int]"
    by (simp add: upto.simps)
  then show ?thesis
    using ecpp_fstage_loop_upto [of 1 1 "ecpp_down fuel env 0 N"]
    by (simp add: GMP_ecpp_def Let_def)
qed

section \<open>What the factoring stage leaves alone\<close>

lemma try_pminus1_frame:
  "try_pminus1 env n B1 B2 (success, f, st) = (success', f', st')
   \<Longrightarrow> visited st' = visited st \<and> found st' = found st \<and> dlist st' = dlist st"
  by (auto simp: try_pminus1_def Let_def split: if_splits prod.splits)

lemma try_ecm_frame:
  "try_ecm env n B1 k (success, f, st) = (success', f', st')
   \<Longrightarrow> visited st' = visited st \<and> found st' = found st \<and> dlist st' = dlist st"
  by (auto simp: try_ecm_def Let_def split: if_splits prod.splits)

lemma try_both_frame:
  assumes "try_ecm env n Be k (try_pminus1 env n B1 B2 (success, f, st)) = (success', f', st')"
  shows "visited st' = visited st \<and> found st' = found st \<and> dlist st' = dlist st"
proof -
  obtain s1 f1 st1 where p: "try_pminus1 env n B1 B2 (success, f, st) = (s1, f1, st1)"
    by (metis prod_cases3)
  with assms have "try_ecm env n Be k (s1, f1, st1) = (success', f', st')"
    by simp
  then show ?thesis
    using try_pminus1_frame [OF p] try_ecm_frame by fastforce
qed

lemma cff2_attempt_frame:
  assumes "cff2_attempt env stage n f sfaci st = Inr (success, f', sfaci', st')"
  shows "visited st' = visited st \<and> found st' = found st \<and> dlist st' = dlist st"
proof -
  define B1 where "B1 = 300 + 3 * mpz_sizeinbase2 n"
  obtain s1 f1 st1 where s1:
    "(if stage \<ge> 1 then try_pminus1 env n B1 (10 * B1) (0, f, st) else (0, f, st)) = (s1, f1, st1)"
    by (metis prod_cases3)
  have fr1: "visited st1 = visited st \<and> found st1 = found st \<and> dlist st1 = dlist st"
  proof (cases "stage \<ge> 1")
    case True
    with s1 have "try_pminus1 env n B1 (10 * B1) (0, f, st) = (s1, f1, st1)"
      by simp
    then show ?thesis
      by (rule try_pminus1_frame)
  next
    case False
    with s1 show ?thesis by simp
  qed
  obtain s2 f2 i2 where s2: "sfacs_scan n (sfacs st1) s1 f1 sfaci = (s2, f2, i2)"
    by (metis prod_cases3)
  show ?thesis
  proof (cases "stage > 1 \<and> s2 = 0")
    case False
    with assms s1 s2 fr1 show ?thesis
      by (auto simp: cff2_attempt_def Let_def B1_def split: if_splits)
  next
    case True
    consider "stage = 2" | "stage = 3" | "stage = 4" | "stage \<ge> 5"
      using True by linarith
    then have "(\<exists>Be k Bp1 Bp2. try_ecm env n Be k (try_pminus1 env n Bp1 Bp2 (s2, f2, st1)) = (success, f', st'))
        \<or> (\<exists>Be k. try_ecm env n Be k (s2, f2, st1) = (success, f', st'))"
    proof cases
      case 1
      with assms s1 s2 True show ?thesis
        by (auto simp: cff2_attempt_def Let_def B1_def split: prod.splits)
    next
      case 2
      with assms s1 s2 True show ?thesis
        by (auto simp: cff2_attempt_def Let_def B1_def split: prod.splits)
    next
      case 3
      with assms s1 s2 True show ?thesis
        by (auto simp: cff2_attempt_def Let_def B1_def split: prod.splits)
    next
      case 4
      with assms s1 s2 True show ?thesis
        by (auto simp: cff2_attempt_def Let_def B1_def split: prod.splits if_splits)
    qed
    then have "visited st' = visited st1 \<and> found st' = found st1 \<and> dlist st' = dlist st1"
    proof (elim disjE exE)
      fix Be k Bp1 Bp2
      assume "try_ecm env n Be k (try_pminus1 env n Bp1 Bp2 (s2, f2, st1)) = (success, f', st')"
      then show ?thesis
        by (rule try_both_frame)
    next
      fix Be k
      assume "try_ecm env n Be k (s2, f2, st1) = (success, f', st')"
      then show ?thesis
        by (rule try_ecm_frame)
    qed
    with fr1 show ?thesis
      by simp
  qed
qed

lemma cff2_loop_frame:
  "cff2_loop env fmin stage n f sfaci st = Inr (res, st')
   \<Longrightarrow> visited st' = visited st \<and> found st' = found st \<and> dlist st' = dlist st"
proof (induction env fmin stage n f sfaci st rule: cff2_loop.induct)
  case (1 env fmin stage n f sfaci st)
  show ?case
  proof (cases "n \<le> fmin")
    case True
    with "1.prems" show ?thesis
      by (subst (asm) cff2_loop.simps) auto
  next
    case False
    from "1.prems"(1) False obtain pp where pp: "GMP_is_prob_prime n = Inr pp"
      by (subst (asm) cff2_loop.simps) (auto split: sum.splits)
    show ?thesis
    proof (cases "pp \<noteq> 0")
      case True
      with "1.prems" False pp show ?thesis
        by (subst (asm) cff2_loop.simps) auto
    next
      case pp0: False
      from "1.prems"(1) False pp pp0 obtain success f1 sfaci1 st1
        where att: "cff2_attempt env stage n f sfaci st = Inr (success, f1, sfaci1, st1)"
        by (subst (asm) cff2_loop.simps) (auto split: sum.splits)
      have fr1: "visited st1 = visited st \<and> found st1 = found st \<and> dlist st1 = dlist st"
        using att by (rule cff2_attempt_frame)
      define st2 where "st2 = (if stage > 1 \<and> length (sfacs st1) < MAX_SFACS
                                 then st1\<lparr>sfacs := sfacs st1 @ [f1]\<rparr> else st1)"
      have fr2: "visited st2 = visited st \<and> found st2 = found st \<and> dlist st2 = dlist st"
        using fr1 by (simp add: st2_def)
      show ?thesis
      proof (cases "success \<noteq> 0")
        case False
        with "1.prems"(1) \<open>\<not> n \<le> fmin\<close> pp pp0 att fr1 show ?thesis
          by (subst (asm) cff2_loop.simps) auto
      next
        case True
        from "1.prems"(1) \<open>\<not> n \<le> fmin\<close> pp pp0 att True
        have ne: "\<not> (f1 = 1 \<or> f1 = n)"
          by (subst (asm) cff2_loop.simps) (auto split: if_splits)
        from "1.prems"(1) \<open>\<not> n \<le> fmin\<close> pp pp0 att True ne obtain pf
          where pf: "(if f1 > fmin then GMP_is_prob_prime f1 else Inr 0) = Inr pf"
          by (subst (asm) cff2_loop.simps) (auto simp: Let_def split: sum.splits if_splits)
        show ?thesis
        proof (cases "pf \<noteq> 0")
          case True
          with "1.prems"(1) \<open>\<not> n \<le> fmin\<close> pp pp0 att \<open>success \<noteq> 0\<close> ne pf fr2 show ?thesis
            by (subst (asm) cff2_loop.simps) (auto simp: Let_def st2_def split: if_splits)
        next
          case pf0: False
          from "1.prems"(1) \<open>\<not> n \<le> fmin\<close> pp pp0 att \<open>success \<noteq> 0\<close> ne pf pf0
          have f0: "f1 \<noteq> 0"
            and rec: "cff2_loop env fmin stage (n div f1) f1 sfaci1 st2 = Inr (res, st')"
            by (subst (asm) cff2_loop.simps, auto simp: Let_def st2_def split: if_splits)+
          have "visited st' = visited st2 \<and> found st' = found st2 \<and> dlist st' = dlist st2"
            by (rule "1.IH" [OF \<open>\<not> n \<le> fmin\<close> pp pp0 att refl refl refl
                  \<open>success \<noteq> 0\<close> ne st2_def pf pf0 f0 rec])
          with fr2 show ?thesis by simp
        qed
      qed
    qed
  qed
qed

lemma check_for_factor2_frame:
  "check_for_factor2 env f inputn fmin stage st = Inr (res, st')
   \<Longrightarrow> visited st' = visited st \<and> found st' = found st \<and> dlist st' = dlist st"
  by (auto simp: check_for_factor2_def Let_def split: if_splits dest: cff2_loop_frame)

section \<open>Invariants of the recursion\<close>

text \<open>The bound on a factor \<open>q\<close> found at a level with candidate \<open>Ni\<close>.\<close>

definition factor_bound :: "nat \<Rightarrow> nat \<Rightarrow> bool" where
  "factor_bound Ni q \<longleftrightarrow>
     (mpz_root Ni 4 + 1) * (mpz_root Ni 4 + 1) < q
     \<and> (case GMP_is_prob_prime q of Inl e \<Rightarrow> False | Inr r \<Rightarrow> r \<noteq> 0)"

text \<open>From \<open>st\<close> to \<open>st'\<close> the log of found factors grows by factors within the bound, and
  the log of visited stages grows by the stages \<open>stages\<close> at level \<open>i\<close>, in this order, and by
  entries of deeper levels (of larger index).\<close>

definition at_level :: "nat \<Rightarrow> 'r ecpp_state \<Rightarrow> 'r ecpp_state \<Rightarrow> int list \<Rightarrow> bool" where
  "at_level i st st' stages \<longleftrightarrow>
     (\<exists>new. found st' = found st @ new \<and> (\<forall>(l, Ni, q)\<in>set new. factor_bound Ni q))
     \<and> (\<exists>new. visited st' = visited st @ new \<and> (\<forall>e\<in>set new. i \<le> fst e)
               \<and> map snd (filter (\<lambda>e. fst e = i) new) = stages)"

definition deeper :: "nat \<Rightarrow> 'r ecpp_state \<Rightarrow> 'r ecpp_state \<Rightarrow> bool" where
  "deeper i st st' \<longleftrightarrow>
     (\<exists>new. found st' = found st @ new \<and> (\<forall>(l, Ni, q)\<in>set new. factor_bound Ni q))
     \<and> (\<exists>new. visited st' = visited st @ new \<and> (\<forall>e\<in>set new. i < fst e))"

definition rec_deeper :: "nat \<Rightarrow> 'r down \<Rightarrow> bool" where
  "rec_deeper i rec \<longleftrightarrow>
     (\<forall>q s st r st'. rec (i + 1) q s st = Inr (r, st') \<longrightarrow> deeper i st st')"

fun flow_state :: "'a flow \<Rightarrow> 'a" where
  "flow_state (Continue s) = s"
| "flow_state (End_down d s) = s"

lemma deeper_refl: "deeper i st st"
  by (simp add: deeper_def)

lemma deeper_trans: "deeper i st st1 \<Longrightarrow> deeper i st1 st2 \<Longrightarrow> deeper i st st2"
  by (auto simp: deeper_def)

lemma deeper_frame: "visited st' = visited st \<Longrightarrow> found st' = found st \<Longrightarrow> deeper i st st'"
  by (simp add: deeper_def)

lemma deeper_found: "factor_bound Ni q \<Longrightarrow> deeper i st (st\<lparr>found := found st @ [(l, Ni, q)]\<rparr>)"
  by (simp add: deeper_def)

lemma at_level_deeper: "deeper i st st' \<Longrightarrow> at_level i st st' []"
proof -
  assume d: "deeper i st st'"
  then obtain new where new: "visited st' = visited st @ new" "\<forall>e\<in>set new. i < fst e"
    by (auto simp: deeper_def)
  then have "filter (\<lambda>e. fst e = i) new = []"
    by (auto simp: filter_empty_conv)
  with new d show ?thesis
    unfolding at_level_def deeper_def by (intro conjI) (blast, force)
qed

lemma at_level_trans:
  "at_level i st st1 xs \<Longrightarrow> at_level i st1 st2 ys \<Longrightarrow> at_level i st st2 (xs @ ys)"
  by (auto simp: at_level_def)

lemma at_level_visit: "at_level i st (st\<lparr>visited := visited st @ [(i, stage)]\<rparr>) [stage]"
  by (simp add: at_level_def)

lemma at_level_frame:
  "visited st' = visited st \<Longrightarrow> found st' = found st \<Longrightarrow> at_level i st st' []"
  by (simp add: at_level_def)

lemma deeper_at_level: "at_level (i + 1) st st' stages \<Longrightarrow> deeper i st st'"
  by (fastforce simp: at_level_def deeper_def)

lemma cff2_loop_result:
  "cff2_loop env fmin stage n f sfaci st = Inr ((r, q), st') \<Longrightarrow> r = 0 \<or> r = 1 \<or> r = - 1"
proof (induction env fmin stage n f sfaci st rule: cff2_loop.induct)
  case (1 env fmin stage n f sfaci st)
  from "1.prems" show ?case
    apply (subst (asm) cff2_loop.simps)
    apply (simp split: if_splits sum.splits prod.splits add: Let_def)
    using "1.IH"
    apply (auto split: if_splits)
    done
qed

lemma check_for_factor2_result:
  "check_for_factor2 env f inputn fmin stage st = Inr ((r, q), st') \<Longrightarrow> r = 0 \<or> r = 1 \<or> r = - 1"
  by (auto simp: check_for_factor2_def Let_def split: if_splits dest: cff2_loop_result)

lemma k_loop_deeper:
  assumes "rec_deeper i rec" and "minfactor = (mpz_root Ni 4 + 1) * (mpz_root Ni 4 + 1)"
    and "k_loop rec env i Ni minfactor stage D dnum mlist k s = Inr fl"
  shows "deeper i (snd s) (snd (flow_state fl)) \<and> (\<forall>d s'. fl = End_down d s' \<longrightarrow> d \<noteq> 1)"
  using assms
proof (induction rec env i Ni minfactor stage D dnum mlist k s rule: k_loop.induct)
  case (1 rec env i Ni minfactor stage D dnum mlist k s)
  obtain fr st where s: "s = (fr, st)"
    by (cases s)
  show ?case
  proof (cases "k < 6")
    case False
    with "1.prems"(3) have "fl = Continue s"
      by (subst (asm) k_loop.simps) simp
    then show ?thesis
      by (simp add: deeper_refl)
  next
    case True
    from "1.prems"(3) True s obtain facresult q st1
      where cf: "check_for_factor2 (factoring env) (fr_q fr) (mlist ! k) minfactor stage st
                   = Inr ((facresult, q), st1)"
      by (subst (asm) k_loop.simps) (auto split: sum.splits)
    have d1: "deeper i st st1"
      using check_for_factor2_frame [OF cf] by (simp add: deeper_frame)
    define fr1 where "fr1 = fr\<lparr>fr_q := q\<rparr>"
    show ?thesis
    proof (cases "facresult \<le> 0")
      case le: True
      with "1.prems"(3) True s cf
      have rec: "k_loop rec env i Ni minfactor stage D dnum mlist (k + 1) (fr1, st1) = Inr fl"
        by (subst (asm) k_loop.simps) (simp add: fr1_def)
      have "deeper i (snd (fr1, st1)) (snd (flow_state fl)) \<and> (\<forall>d s'. fl = End_down d s' \<longrightarrow> d \<noteq> 1)"
        by (rule "1.IH"(1) [OF True s [symmetric] cf refl refl fr1_def le "1.prems"(1,2) rec])
      with d1 s show ?thesis
        by (auto intro: deeper_trans)
    next
      case pos: False
      define fr2 where "fr2 = fr1\<lparr>fr_m := mlist ! k\<rparr>"
      define st2 where "st2 = st1\<lparr>found := found st1 @ [(i, Ni, q)]\<rparr>"
      have d2: "deeper i st1 st2"
      proof (cases "facresult = 1")
        case True
        with cf have "minfactor < q \<and> (\<exists>r. GMP_is_prob_prime q = Inr r \<and> r \<noteq> 0)"
          by (intro check_for_factor2_found) simp
        then have "factor_bound Ni q"
          by (auto simp: factor_bound_def "1.prems"(2))
        then show ?thesis
          unfolding st2_def by (rule deeper_found)
      next
        case False
        from cf have "facresult = 0 \<or> facresult = 1 \<or> facresult = - 1"
          by (rule check_for_factor2_result)
        with pos False show ?thesis by simp
      qed
      from "1.prems"(3) True s cf pos obtain downresult st3
        where down: "rec (i + 1) q stage st2 = Inr (downresult, st3)"
        by (subst (asm) k_loop.simps) (auto simp: Let_def fr1_def st2_def split: sum.splits)
      have d3: "deeper i st2 st3"
        using "1.prems"(1) down by (auto simp: rec_deeper_def)
      have d03: "deeper i st st3"
        using d1 d2 d3 by (blast intro: deeper_trans)
      show ?thesis
      proof (cases "downresult = 0")
        case True
        with "1.prems"(3) \<open>k < 6\<close> s cf pos down have "fl = End_down 0 (fr2, st3)"
          by (subst (asm) k_loop.simps) (simp add: Let_def fr1_def fr2_def st2_def)
        with d03 s show ?thesis by simp
      next
        case n0: False
        show ?thesis
        proof (cases "downresult = 1")
          case True
          with "1.prems"(3) \<open>k < 6\<close> s cf pos down
          have rec: "k_loop rec env i Ni minfactor stage D dnum mlist (k + 1) (fr2, st3) = Inr fl"
            by (subst (asm) k_loop.simps) (simp add: Let_def fr1_def fr2_def st2_def)
          have "deeper i (snd (fr2, st3)) (snd (flow_state fl))
                \<and> (\<forall>d s'. fl = End_down d s' \<longrightarrow> d \<noteq> 1)"
            by (rule "1.IH"(2) [OF \<open>k < 6\<close> s [symmetric] cf refl refl fr1_def pos fr2_def st2_def
                  down refl n0 True "1.prems"(1,2) rec])
          with d03 show ?thesis
            by (auto simp: s intro: deeper_trans)
        next
          case n1: False
          obtain curveresult a b Px Py rs
            where fc: "find_curve env D (fr_m fr2) q Ni (randstate st3) = ((curveresult, a, b, Px, Py), rs)"
            by (metis prod_cases5 surj_pair)
          define fr3 where "fr3 = fr2\<lparr>fr_a := a, fr_b := b, fr_Px := Px, fr_Py := Py\<rparr>"
          define st4 where "st4 = st3\<lparr>randstate := rs\<rparr>"
          have d4: "deeper i st3 st4"
            by (simp add: st4_def deeper_frame)
          show ?thesis
          proof (cases "curveresult = 1")
            case True
            define st5 where "st5 = st4\<lparr>dlist := (dlist st4)[dnum := 1]\<rparr>"
            have d5: "deeper i st4 st5"
              by (simp add: st5_def deeper_frame)
            from "1.prems"(3) \<open>k < 6\<close> s cf pos down n0 n1 fc True
            have rec: "k_loop rec env i Ni minfactor stage D dnum mlist (k + 1) (fr3, st5) = Inr fl"
              by (subst (asm) k_loop.simps)
                 (simp add: Let_def fr1_def fr2_def fr3_def st2_def st4_def st5_def)
            have "deeper i (snd (fr3, st4\<lparr>dlist := (dlist st4)[dnum := 1]\<rparr>)) (snd (flow_state fl))
                  \<and> (\<forall>d s'. fl = End_down d s' \<longrightarrow> d \<noteq> 1)"
              by (rule "1.IH"(3) [OF \<open>k < 6\<close> s [symmetric] cf refl refl fr1_def pos fr2_def st2_def
                    down refl n0 n1 fc [symmetric] refl refl refl refl fr3_def st4_def True
                    "1.prems"(1,2) rec [unfolded st5_def]])
            with d03 d4 d5 show ?thesis
              by (auto simp: s st5_def intro: deeper_trans)
          next
            case False
            with "1.prems"(3) \<open>k < 6\<close> s cf pos down n0 n1 fc
            have "fl = End_down downresult (fr3, st4)"
              by (subst (asm) k_loop.simps)
                 (simp add: Let_def fr1_def fr2_def fr3_def st2_def st4_def)
            with d03 d4 n1 show ?thesis
              by (auto simp: s intro: deeper_trans)
          qed
        qed
      qed
    qed
  qed
qed


lemma d_loop_deeper:
  assumes "rec_deeper i rec" and "minfactor = (mpz_root Ni 4 + 1) * (mpz_root Ni 4 + 1)"
    and "d_loop rec env i Ni minfactor stage dnums s = Inr fl"
  shows "deeper i (snd s) (snd (flow_state fl)) \<and> (\<forall>d s'. fl = End_down d s' \<longrightarrow> d \<noteq> 1)"
  using assms(3)
proof (induction dnums arbitrary: s)
  case Nil
  then show ?case
    by (auto simp: deeper_refl)
next
  case (Cons dnum dnums)
  obtain fr st where s: "s = (fr, st)"
    by (cases s)
  let ?D = "- int (dlist st ! dnum)"
  let ?skip = "d_loop rec env i Ni minfactor stage dnums (fr, st)"
  obtain pd pt where pc: "poly_class_poly env ?D = (pd, pt)"
    by (cases "poly_class_poly env ?D")
  obtain ok u v where mc: "modified_cornacchia env ?D Ni = (ok, u, v)"
    by (cases "modified_cornacchia env ?D Ni")
  note run = Cons.prems [unfolded s d_loop.simps Let_def]
  have skip: ?case if "?skip = Inr fl"
    using Cons.IH [OF that] by (simp add: s)
  show ?case
  proof (cases "dnum < length (dlist st) \<and> dlist st ! dnum > 0")
    case False
    from run [unfolded if_not_P [OF False]] show ?thesis
      by (auto simp: s deeper_refl)
  next
    case c1: True
    note run1 = run [unfolded if_P [OF c1]]
    show ?thesis
    proof (cases "?D = - 1")
      case True
      from run1 [unfolded if_P [OF True]] show ?thesis
        by (rule skip)
    next
      case c2: False
      note run2 = run1 [unfolded if_not_P [OF c2]]
      show ?thesis
      proof (cases "(- ?D) mod 4 \<noteq> 3 \<and> (- ?D) mod 16 \<noteq> 4 \<and> (- ?D) mod 16 \<noteq> 8")
        case True
        from run2 [unfolded if_P [OF True]] show ?thesis
          by simp
      next
        case c3: False
        note run3 = run2 [unfolded if_not_P [OF c3] pc prod.case]
        show ?thesis
        proof (cases "pd = 0")
          case True
          from run3 [unfolded if_P [OF True]] show ?thesis
            by (rule skip)
        next
          case c4: False
          note run4 = run3 [unfolded if_not_P [OF c4]]
          show ?thesis
          proof (cases "mpz_jacobi ?D Ni \<noteq> 1")
            case True
            from run4 [unfolded if_P [OF True]] show ?thesis
              by (rule skip)
          next
            case c5: False
            note run5 = run4 [unfolded if_not_P [OF c5] mc prod.case]
            show ?thesis
            proof (cases "ok = 0")
              case True
              from run5 [unfolded if_P [OF True]] show ?thesis
                by (rule skip)
            next
              case c6: False
              note run6 = run5 [unfolded if_not_P [OF c6]]
              from run6 obtain mlist
                where ch: "choose_m ?D u v Ni = Inr mlist"
                by (cases "choose_m ?D u v Ni") simp_all
              note run7 = run6 [unfolded ch sum.case]
              from run7 obtain fl1
                where k: "k_loop rec env i Ni minfactor stage ?D dnum mlist 0 (fr, st) = Inr fl1"
                by (cases "k_loop rec env i Ni minfactor stage ?D dnum mlist 0 (fr, st)") simp_all
              note run8 = run7 [unfolded k sum.case]
              have k1: "deeper i (snd (fr, st)) (snd (flow_state fl1))
                        \<and> (\<forall>d s'. fl1 = End_down d s' \<longrightarrow> d \<noteq> 1)"
                using assms(1,2) k by (rule k_loop_deeper)
              show ?thesis
              proof (cases fl1)
                case (End_down r s1)
                with run8 have "fl = fl1"
                  by simp
                with k1 show ?thesis
                  by (simp add: s)
              next
                case (Continue s1)
                with run8 have "d_loop rec env i Ni minfactor stage dnums s1 = Inr fl"
                  by simp
                then have "deeper i (snd s1) (snd (flow_state fl))
                           \<and> (\<forall>d s'. fl = End_down d s' \<longrightarrow> d \<noteq> 1)"
                  by (rule Cons.IH)
                with k1 Continue show ?thesis
                  by (auto simp: s intro: deeper_trans)
              qed
            qed
          qed
        qed
      qed
    qed
  qed
qed

lemma stage_loop_at_level:
  assumes "rec_deeper i rec" and "minfactor = (mpz_root Ni 4 + 1) * (mpz_root Ni 4 + 1)"
    and "stage_loop rec env i Ni minfactor facstage stage s = Inr fl"
  shows "\<exists>stages. at_level i (snd s) (snd (flow_state fl)) stages
           \<and> (\<exists>n. stages = take n [stage..facstage])
           \<and> (\<forall>s'. fl = Continue s' \<longrightarrow> stages = [stage..facstage])
           \<and> (\<forall>d s'. fl = End_down d s' \<longrightarrow> d \<noteq> 1)"
  using assms
proof (induction rec env i Ni minfactor facstage stage s rule: stage_loop.induct)
  case (1 rec env i Ni minfactor facstage stage s)
  obtain fr st where s: "s = (fr, st)"
    by (cases s)
  show ?case
  proof (cases "stage \<le> facstage")
    case False
    with "1.prems"(3) have "fl = Continue s"
      by (subst (asm) stage_loop.simps) simp
    moreover from False have "[stage..facstage] = []"
      by simp
    ultimately show ?thesis
      using at_level_frame [of "snd s" "snd s" i] by auto
  next
    case True
    then have up: "[stage..facstage] = stage # [stage + 1..facstage]"
      by (subst upto.simps) simp
    define st1 where "st1 = st\<lparr>visited := visited st @ [(i, stage)]\<rparr>"
    have v: "at_level i st st1 [stage]"
      unfolding st1_def by (rule at_level_visit)
    from "1.prems"(3) True s obtain fl1
      where d: "d_loop rec env i Ni minfactor stage [0..<length (dlist st1)] (fr, st1) = Inr fl1"
      by (subst (asm) stage_loop.simps) (auto simp: Let_def st1_def split: sum.splits)
    have d1: "deeper i (snd (fr, st1)) (snd (flow_state fl1))
              \<and> (\<forall>d s'. fl1 = End_down d s' \<longrightarrow> d \<noteq> 1)"
      using "1.prems"(1,2) d by (rule d_loop_deeper)
    then have a1: "at_level i st (snd (flow_state fl1)) [stage]"
      using at_level_trans [OF v at_level_deeper, of "snd (flow_state fl1)"] by simp
    show ?thesis
    proof (cases fl1)
      case (End_down r s1)
      with "1.prems"(3) True s d have "fl = fl1"
        by (subst (asm) stage_loop.simps) (simp add: Let_def st1_def)
      moreover have "[stage] = take 1 [stage..facstage]"
        by (simp add: up)
      ultimately show ?thesis
        using a1 d1 End_down s by (intro exI [of _ "[stage]"]) auto
    next
      case (Continue s1)
      with "1.prems"(3) True s d
      have rec: "stage_loop rec env i Ni minfactor facstage (stage + 1) s1 = Inr fl"
        by (subst (asm) stage_loop.simps) (simp add: Let_def st1_def)
      have "\<exists>stages. at_level i (snd s1) (snd (flow_state fl)) stages
              \<and> (\<exists>n. stages = take n [stage + 1..facstage])
              \<and> (\<forall>s'. fl = Continue s' \<longrightarrow> stages = [stage + 1..facstage])
              \<and> (\<forall>d s'. fl = End_down d s' \<longrightarrow> d \<noteq> 1)"
        by (rule "1.IH" [OF True s [symmetric] st1_def d Continue "1.prems"(1,2) rec])
      then obtain stages n
        where st: "at_level i (snd s1) (snd (flow_state fl)) stages"
          and n: "stages = take n [stage + 1..facstage]"
          and c: "\<forall>s'. fl = Continue s' \<longrightarrow> stages = [stage + 1..facstage]"
          and e: "\<forall>d s'. fl = End_down d s' \<longrightarrow> d \<noteq> 1"
        by blast
      from a1 Continue st have "at_level i st (snd (flow_state fl)) ([stage] @ stages)"
        by (intro at_level_trans [where ?st1.0 = "snd s1"]) simp_all
      moreover from n have "[stage] @ stages = take (Suc n) [stage..facstage]"
        by (simp add: up)
      moreover from c have "\<forall>s'. fl = Continue s' \<longrightarrow> [stage] @ stages = [stage..facstage]"
        by (simp add: up)
      ultimately show ?thesis
        using e s by (intro exI [of _ "[stage] @ stages"]) (auto simp del: append.simps)
    qed
  qed
qed

definition stage_range :: "nat \<Rightarrow> int \<Rightarrow> int list" where
  "stage_range i facstage = [(if i = 0 then facstage else 1)..facstage]"

lemma ecpp_down_at_level:
  "ecpp_down fuel env i Ni facstage st = Inr (r, st')
   \<Longrightarrow> \<exists>stages. at_level i st st' stages
         \<and> (\<exists>n. stages = take n (stage_range i facstage))
         \<and> (r = 1 \<longrightarrow> stages = stage_range i facstage)"
proof (induction fuel arbitrary: i Ni facstage st r st')
  case 0
  then show ?case
    by simp
next
  case (Suc fuel)
  have rd: "rec_deeper i (ecpp_down fuel env)"
    unfolding rec_deeper_def
  proof (intro allI impI)
    fix q s st r st'
    assume "ecpp_down fuel env (i + 1) q s st = Inr (r, st')"
    from Suc.IH [OF this] show "deeper i st st'"
      by (auto intro: deeper_at_level)
  qed
  from Suc.prems obtain k where k: "GMP_is_prob_prime Ni = Inr k"
    by (auto split: sum.splits)
  have nil: "at_level i st st [] \<and> (\<exists>n. [] = take n (stage_range i facstage))"
    by (auto simp: at_level_frame intro: exI [of _ 0])
  show ?case
  proof (cases "k = 0 \<or> k = 2")
    case True
    with Suc.prems k have "st' = st" "r \<noteq> 1"
      by (auto split: if_splits)
    with nil show ?thesis
      by blast
  next
    case False
    define fr0 where "fr0 = \<lparr>fr_a = 0, fr_b = 0, fr_m = 0, fr_q = 0, fr_Px = 0, fr_Py = 0\<rparr>"
    define minfactor where "minfactor = (mpz_root Ni 4 + 1) * (mpz_root Ni 4 + 1)"
    from Suc.prems k False obtain fl
      where fl: "ecpp_stages (ecpp_down fuel env) env i Ni minfactor facstage (fr0, st) = Inr fl"
      by (auto simp: Let_def fr0_def minfactor_def split: sum.splits)
    then have "stage_loop (ecpp_down fuel env) env i Ni minfactor facstage
                 (if i = 0 then facstage else 1) (fr0, st) = Inr fl"
      by (simp add: ecpp_stages_def)
    from stage_loop_at_level [OF rd minfactor_def this, folded stage_range_def]
    obtain stages n
      where st: "at_level i st (snd (flow_state fl)) stages"
        and n: "stages = take n (stage_range i facstage)"
        and c: "\<forall>s'. fl = Continue s' \<longrightarrow> stages = stage_range i facstage"
        and e: "\<forall>d s'. fl = End_down d s' \<longrightarrow> d \<noteq> 1"
      unfolding snd_conv by blast
    show ?thesis
    proof (cases fl)
      case (Continue s1)
      with Suc.prems k False fl have "st' = snd s1"
        by (auto simp: Let_def fr0_def minfactor_def split: prod.splits)
      with st n c Continue show ?thesis
        by auto
    next
      case (End_down d s1)
      with Suc.prems k False fl
      have r: "r = d" and v: "visited st' = visited (snd s1)" "found st' = found (snd s1)"
        by (auto simp: Let_def fr0_def minfactor_def split: prod.splits if_splits)
      from st End_down have "at_level i st st' (stages @ [])"
        by (intro at_level_trans [where ?st1.0 = "snd s1"] at_level_frame v) simp
      with n e End_down r show ?thesis
        by auto
    qed
  qed
qed


section \<open>The stages visited and the factors found\<close>

text \<open>The factors logged between \<open>st\<close> and \<open>st'\<close> are within the bound of their level, and
  the stages for which the factoring-stage loop ran at level \<open>i\<close> between \<open>st\<close> and \<open>st'\<close>.\<close>

definition found_within_bound :: "'r ecpp_state \<Rightarrow> 'r ecpp_state \<Rightarrow> bool" where
  "found_within_bound st st' \<longleftrightarrow>
     take (length (found st)) (found st') = found st
     \<and> list_all (\<lambda>(l, Ni, q). factor_bound Ni q) (drop (length (found st)) (found st'))"

definition stages_at :: "nat \<Rightarrow> 'r ecpp_state \<Rightarrow> 'r ecpp_state \<Rightarrow> int list" where
  "stages_at i st st' =
     map snd (filter (\<lambda>e. fst e = i) (drop (length (visited st)) (visited st')))"

text \<open>The loop in the words of the spec: \<open>for stage in 1..fac_stage\<close>.\<close>

definition ecpp_stages_claimed ::
  "'r down \<Rightarrow> 'r ecpp_env \<Rightarrow> nat \<Rightarrow> nat \<Rightarrow> nat \<Rightarrow> int
     \<Rightarrow> ecpp_frame \<times> 'r ecpp_state \<Rightarrow> error + (ecpp_frame \<times> 'r ecpp_state) flow" where
  "ecpp_stages_claimed rec env i Ni minfactor facstage s =
     stage_loop rec env i Ni minfactor facstage 1 s"

text \<open>Inputs for running the model: factoring routines that find nothing, an environment
  for \<open>N = 101\<close> with the single discriminant \<open>-4\<close> (\<open>4 * 101 = 20\<^sup>2 + 4 * 1\<^sup>2\<close>, and the curve
  \<open>y\<^sup>2 = x\<^sup>3 + 8 x\<close> has 122 points modulo 101, among them \<open>(1, 3)\<close>), an environment with an
  empty list of discriminants, and the state at the start of \<open>_GMP_ecpp\<close>.\<close>

definition no_factor_env :: "unit factor_env" where
  "no_factor_env =
     \<lparr>pminus1_factor = (\<lambda>n B1 B2. (0, n)),
      ecm_factor_projective = (\<lambda>n B1 ncurves rs. ((0, n), rs))\<rparr>"

definition env_101 :: "unit ecpp_env" where
  "env_101 =
     \<lparr>factoring = no_factor_env,
      poly_class_degrees = [4],
      poly_class_poly = (\<lambda>D. (1, 1)),
      modified_cornacchia = (\<lambda>D N. (1, 20, 1)),
      find_curve = (\<lambda>D m q N rs. ((2, 8, 0, 1, 3), rs))\<rparr>"

definition env_no_D :: "unit ecpp_env" where
  "env_no_D = env_101\<lparr>poly_class_degrees := []\<rparr>"

definition start_state :: "nat list \<Rightarrow> unit ecpp_state" where
  "start_state ds =
     \<lparr>dlist = ds, sfacs = [], randstate = (), prooftext = [], calls = [], visited = [],
      found = []\<rparr>"

definition start_frame :: ecpp_frame where
  "start_frame = \<lparr>fr_a = 0, fr_b = 0, fr_m = 0, fr_q = 0, fr_Px = 0, fr_Py = 0\<rparr>"

lemma at_level_found: "at_level i st st' stages \<Longrightarrow> found_within_bound st st'"
  by (auto simp: at_level_def found_within_bound_def list_all_iff)

lemma at_level_stages: "at_level i st st' stages \<Longrightarrow> stages_at i st st' = stages"
  by (auto simp: at_level_def stages_at_def)

lemma stage_range_if: "stage_range i facstage = (if i = 0 then [facstage] else [1..facstage])"
  by (simp add: stage_range_def upto.simps)

lemmas prime_eval =
  GMP_is_prob_prime_def GMP_trial_factor_def trial_loop.simps uv_def prime_iterator_next_def
  prime_search.simps prime_p_def least_factor_def least_factor_from.simps

lemma is_prob_prime_61: "GMP_is_prob_prime 61 = Inr 2"
  by (simp add: prime_eval)

lemma mpz_root_101: "mpz_root 101 4 = 3"
  by (simp add: mpz_root.simps)

lemma cff2_trial_122: "cff2_trial 122 2 = 61"
  by (simp add: cff2_trial.simps divide_out.simps prime_iterator_next_def
      prime_search.simps prime_p_def least_factor_def least_factor_from.simps)

lemma check_for_factor2_122:
  "check_for_factor2 fenv f 122 16 stage st = Inr ((1, 61), st)"
  by (simp add: check_for_factor2_def cff2_trial_122 cff2_loop.simps is_prob_prime_61)

lemma mpz_jacobi_4_101: "mpz_jacobi (- 4) 101 = 1"
  by (simp add: jacobi_eval)

lemma choose_m_101: "choose_m (- 4) 20 1 101 = Inr [122, 82, 104, 100, 0, 0]"
  by (simp add: choose_m_def GMP_is_prob_prime_z_def GMP_is_prob_prime_def GMP_trial_factor_def)

lemma ecpp_down_61: "ecpp_down (Suc fuel) env i 61 stage st = Inr (2, st)"
  by (simp add: is_prob_prime_61)


lemma ecpp_stages_101:
  "ecpp_stages (ecpp_down 1 env_101) env_101 0 101 16 1 (start_frame, start_state [4])
     = Inr (End_down 2
         (\<lparr>fr_a = 8, fr_b = 0, fr_m = 122, fr_q = 61, fr_Px = 1, fr_Py = 3\<rparr>,
          \<lparr>dlist = [4], sfacs = [], randstate = (), prooftext = [], calls = [],
             visited = [(0, 1)], found = [(0, 101, 61)]\<rparr>))"
  by (simp add: ecpp_stages_def stage_loop.simps k_loop.simps env_101_def start_state_def
      start_frame_def check_for_factor2_122 is_prob_prime_61 mpz_jacobi_4_101 choose_m_101
      Let_def)









lemma ecpp_down_rec_deeper: "rec_deeper i (ecpp_down fuel env)"
  unfolding rec_deeper_def
proof (intro allI impI)
  fix q s st r st'
  assume "ecpp_down fuel env (i + 1) q s st = Inr (r, st')"
  from ecpp_down_at_level [OF this] show "deeper i st st'"
    by (auto intro: deeper_at_level)
qed

lemma ecpp_stages_at_level:
  assumes "ecpp_stages (ecpp_down fuel env) env i Ni
             ((mpz_root Ni 4 + 1) * (mpz_root Ni 4 + 1)) facstage (fr, st) = Inr fl"
  shows "\<exists>stages. at_level i st (snd (flow_state fl)) stages
           \<and> (\<exists>n. stages = take n (stage_range i facstage))
           \<and> (\<forall>s'. fl = Continue s' \<longrightarrow> stages = stage_range i facstage)"
proof -
  from assms
  have "stage_loop (ecpp_down fuel env) env i Ni ((mpz_root Ni 4 + 1) * (mpz_root Ni 4 + 1))
          facstage (if i = 0 then facstage else 1) (fr, st) = Inr fl"
    by (simp add: ecpp_stages_def)
  from stage_loop_at_level [OF ecpp_down_rec_deeper refl this, folded stage_range_def]
  show ?thesis
    unfolding snd_conv by blast
qed

text \<open>
  Claim C2.  At every level of the recursion, with candidate \<open>Ni\<close>, a factor \<open>q\<close> for which
  \<open>check_for_factor2\<close> returns 1 (FOUND) exceeds \<open>(\<lfloor>Ni^(1/4)\<rfloor> + 1)\<^sup>2\<close> and passes
  \<open>_GMP_is_prob_prime\<close>.  The bound is the \<open>minfactor\<close> that \<open>ecpp_down\<close> computes once, before
  its loops, as the integer fourth root of \<open>Ni\<close>, plus 1, squared: it holds for the call of
  \<open>check_for_factor2\<close> with that bound, for every factor logged by the loops of a level, and
  for every factor logged by a call of \<open>ecpp_down\<close>, the levels below included.
\<close>

theorem found_factor_above_bound:
  "(check_for_factor2 (factoring env) f m ((mpz_root Ni 4 + 1) * (mpz_root Ni 4 + 1)) stage st
      = Inr ((1, q), st1)
    \<longrightarrow> factor_bound Ni q)
   \<and> (ecpp_stages (ecpp_down fuel env) env i Ni ((mpz_root Ni 4 + 1) * (mpz_root Ni 4 + 1))
        facstage (fr, st) = Inr fl
      \<longrightarrow> found_within_bound st (snd (flow_state fl)))
   \<and> (ecpp_down fuel env i Ni facstage st = Inr (r, st') \<longrightarrow> found_within_bound st st')"
proof (intro conjI impI)
  assume "check_for_factor2 (factoring env) f m ((mpz_root Ni 4 + 1) * (mpz_root Ni 4 + 1))
            stage st = Inr ((1, q), st1)"
  then have "(mpz_root Ni 4 + 1) * (mpz_root Ni 4 + 1) < q
             \<and> (\<exists>r. GMP_is_prob_prime q = Inr r \<and> r \<noteq> 0)"
    by (rule check_for_factor2_found)
  then show "factor_bound Ni q"
    by (auto simp: factor_bound_def)
next
  assume "ecpp_stages (ecpp_down fuel env) env i Ni ((mpz_root Ni 4 + 1) * (mpz_root Ni 4 + 1))
            facstage (fr, st) = Inr fl"
  from ecpp_stages_at_level [OF this] show "found_within_bound st (snd (flow_state fl))"
    by (blast intro: at_level_found)
next
  assume "ecpp_down fuel env i Ni facstage st = Inr (r, st')"
  from ecpp_down_at_level [OF this] show "found_within_bound st st'"
    by (blast intro: at_level_found)
qed

theorem found_factor_above_bound_witness:
  "check_for_factor2 (factoring env_101) 0 122 ((mpz_root 101 4 + 1) * (mpz_root 101 4 + 1)) 1
     (start_state [4]) = Inr ((1, 61), start_state [4])
   \<and> factor_bound 101 61
   \<and> (mpz_root 101 4 + 1) * (mpz_root 101 4 + 1) = 16
   \<and> GMP_is_prob_prime 61 = Inr 2
   \<and> ecpp_stages (ecpp_down 1 env_101) env_101 0 101
       ((mpz_root 101 4 + 1) * (mpz_root 101 4 + 1)) 1 (start_frame, start_state [4])
     = Inr (End_down 2
         (\<lparr>fr_a = 8, fr_b = 0, fr_m = 122, fr_q = 61, fr_Px = 1, fr_Py = 3\<rparr>,
          \<lparr>dlist = [4], sfacs = [], randstate = (), prooftext = [], calls = [],
             visited = [(0, 1)], found = [(0, 101, 61)]\<rparr>))
   \<and> found_within_bound (start_state [4])
       \<lparr>dlist = [4], sfacs = [], randstate = (), prooftext = [], calls = [],
          visited = [(0, 1)], found = [(0, 101, 61)]\<rparr>
   \<and> ecpp_down 1 env_101 0 101 1 (start_state [4]) = Inr (2, start_state [4])
   \<and> found_within_bound (start_state [4]) (start_state [4])"
proof -
  have b: "(mpz_root 101 4 + 1) * (mpz_root 101 4 + 1) = 16"
    by (simp add: mpz_root_101)
  have h1: "check_for_factor2 (factoring env_101) 0 122
              ((mpz_root 101 4 + 1) * (mpz_root 101 4 + 1)) 1 (start_state [4])
            = Inr ((1, 61), start_state [4])"
    by (simp only: b check_for_factor2_122)
  have h2: "ecpp_stages (ecpp_down 1 env_101) env_101 0 101
              ((mpz_root 101 4 + 1) * (mpz_root 101 4 + 1)) 1 (start_frame, start_state [4])
            = Inr (End_down 2
                (\<lparr>fr_a = 8, fr_b = 0, fr_m = 122, fr_q = 61, fr_Px = 1, fr_Py = 3\<rparr>,
                 \<lparr>dlist = [4], sfacs = [], randstate = (), prooftext = [], calls = [],
                    visited = [(0, 1)], found = [(0, 101, 61)]\<rparr>))"
    by (simp only: b ecpp_stages_101)
  have h3: "ecpp_down 1 env_101 0 101 1 (start_state [4]) = Inr (2, start_state [4])"
    by (simp add: prime_eval)
  from found_factor_above_bound [where env = env_101 and f = 0 and m = 122 and Ni = 101
      and stage = 1 and st = "start_state [4]" and q = 61 and ?st1.0 = "start_state [4]"
      and fuel = 1 and i = 0 and facstage = 1 and fr = start_frame and r = 2
      and st' = "start_state [4]"
      and fl = "End_down 2
         (\<lparr>fr_a = 8, fr_b = 0, fr_m = 122, fr_q = 61, fr_Px = 1, fr_Py = 3\<rparr>,
          \<lparr>dlist = [4], sfacs = [], randstate = (), prooftext = [], calls = [],
             visited = [(0, 1)], found = [(0, 101, 61)]\<rparr>)"]
    h1 h2 h3
  have "factor_bound 101 61
        \<and> found_within_bound (start_state [4])
            \<lparr>dlist = [4], sfacs = [], randstate = (), prooftext = [], calls = [],
               visited = [(0, 1)], found = [(0, 101, 61)]\<rparr>
        \<and> found_within_bound (start_state [4]) (start_state [4])"
    by simp
  with h1 h2 h3 b is_prob_prime_61 show ?thesis
    by simp
qed

text \<open>
  Claim C6, as the spec states it: at every level, the outermost level \<open>i = 0\<close> included, the
  loop iterates \<open>stage\<close> from 1 up to \<open>facstage\<close>.  The loop of \<open>ecpp_down\<close> is
  \<open>for (stage = (i == 0) ? facstage : 1; stage <= facstage; stage++)\<close>: at level 0 with
  \<open>facstage = 2\<close> it runs stage 2 only, and the loop of the spec would run stages 1 and 2.
\<close>

theorem ecpp_stages_level_0_skips:
  "ecpp_stages (ecpp_down 0 env_no_D) env_no_D 0 101 16 2 (start_frame, start_state [])
     = Inr (Continue
         (start_frame,
          \<lparr>dlist = [], sfacs = [], randstate = (), prooftext = [], calls = [],
             visited = [(0, 2)], found = []\<rparr>))
   \<and> ecpp_stages_claimed (ecpp_down 0 env_no_D) env_no_D 0 101 16 2
       (start_frame, start_state [])
     = Inr (Continue
         (start_frame,
          \<lparr>dlist = [], sfacs = [], randstate = (), prooftext = [], calls = [],
             visited = [(0, 1), (0, 2)], found = []\<rparr>))
   \<and> ecpp_stages (ecpp_down 0 env_no_D) env_no_D 0 101 16 2 (start_frame, start_state [])
     \<noteq> ecpp_stages_claimed (ecpp_down 0 env_no_D) env_no_D 0 101 16 2
         (start_frame, start_state [])"
  by (simp add: ecpp_stages_def ecpp_stages_claimed_def stage_loop.simps start_state_def)

text \<open>
  Claim C6, amended: at every level \<open>i > 0\<close> of the recursion the factoring-stage loop
  iterates \<open>stage\<close> from 1 up to the \<open>facstage\<close> passed to that call, and at the outermost
  level \<open>i = 0\<close> it runs the one iteration \<open>stage = facstage\<close>.  The stages run are an
  initial part of this range (the loop is left early once a level below has returned a
  proof or a composite), and all of it when the loop runs to its end, which is when
  \<open>ecpp_down\<close> returns 1.
\<close>

theorem ecpp_down_stage_range:
  "(ecpp_stages (ecpp_down fuel env) env i Ni ((mpz_root Ni 4 + 1) * (mpz_root Ni 4 + 1))
      facstage (fr, st) = Inr fl
    \<longrightarrow> (\<exists>n. stages_at i st (snd (flow_state fl))
                = take n (if i = 0 then [facstage] else [1..facstage]))
        \<and> (\<forall>s'. fl = Continue s'
              \<longrightarrow> stages_at i st (snd (flow_state fl))
                    = (if i = 0 then [facstage] else [1..facstage])))
   \<and> (ecpp_down fuel env i Ni facstage st = Inr (r, st')
      \<longrightarrow> (\<exists>n. stages_at i st st' = take n (if i = 0 then [facstage] else [1..facstage]))
          \<and> (r = 1 \<longrightarrow> stages_at i st st' = (if i = 0 then [facstage] else [1..facstage])))"
proof (intro conjI impI)
  assume "ecpp_stages (ecpp_down fuel env) env i Ni ((mpz_root Ni 4 + 1) * (mpz_root Ni 4 + 1))
            facstage (fr, st) = Inr fl"
  from ecpp_stages_at_level [OF this] obtain stages n
    where a: "at_level i st (snd (flow_state fl)) stages"
      and n: "stages = take n (stage_range i facstage)"
      and c: "\<forall>s'. fl = Continue s' \<longrightarrow> stages = stage_range i facstage"
    by blast
  from a have s: "stages_at i st (snd (flow_state fl)) = stages"
    by (rule at_level_stages)
  from n show "\<exists>n. stages_at i st (snd (flow_state fl))
                 = take n (if i = 0 then [facstage] else [1..facstage])"
    unfolding s stage_range_if by blast
  from c show "\<forall>s'. fl = Continue s'
                 \<longrightarrow> stages_at i st (snd (flow_state fl))
                       = (if i = 0 then [facstage] else [1..facstage])"
    unfolding s stage_range_if by blast
next
  assume "ecpp_down fuel env i Ni facstage st = Inr (r, st')"
  from ecpp_down_at_level [OF this] obtain stages n
    where a: "at_level i st st' stages"
      and n: "stages = take n (stage_range i facstage)"
      and c: "r = 1 \<longrightarrow> stages = stage_range i facstage"
    by blast
  from a have s: "stages_at i st st' = stages"
    by (rule at_level_stages)
  from n show "\<exists>n. stages_at i st st' = take n (if i = 0 then [facstage] else [1..facstage])"
    unfolding s stage_range_if by blast
  assume "r = 1"
  with c show "stages_at i st st' = (if i = 0 then [facstage] else [1..facstage])"
    unfolding s stage_range_if by blast
qed

theorem ecpp_down_stage_range_witness:
  "ecpp_stages (ecpp_down 1 env_no_D) env_no_D 1 101 ((mpz_root 101 4 + 1) * (mpz_root 101 4 + 1))
     3 (start_frame, start_state [])
     = Inr (Continue
         (start_frame,
          \<lparr>dlist = [], sfacs = [], randstate = (), prooftext = [], calls = [],
             visited = [(1, 1), (1, 2), (1, 3)], found = []\<rparr>))
   \<and> stages_at 1 (start_state [])
       \<lparr>dlist = [], sfacs = [], randstate = (), prooftext = [], calls = [],
          visited = [(1, 1), (1, 2), (1, 3)], found = []\<rparr> = [1, 2, 3]
   \<and> ecpp_down 1 env_no_D 1 101 3 (start_state []) = Inr (2, start_state [])
   \<and> stages_at 1 (start_state []) (start_state []) = take 0 [1, 2, 3]"
proof -
  have h1: "ecpp_stages (ecpp_down 1 env_no_D) env_no_D 1 101
              ((mpz_root 101 4 + 1) * (mpz_root 101 4 + 1)) 3 (start_frame, start_state [])
            = Inr (Continue
                (start_frame,
                 \<lparr>dlist = [], sfacs = [], randstate = (), prooftext = [], calls = [],
                    visited = [(1, 1), (1, 2), (1, 3)], found = []\<rparr>))"
    by (simp add: ecpp_stages_def stage_loop.simps start_state_def)
  have h2: "ecpp_down 1 env_no_D 1 101 3 (start_state []) = Inr (2, start_state [])"
    by (simp add: prime_eval)
  have up: "[1..3] = [1, 2, 3::int]"
    by (simp add: upto.simps)
  from ecpp_down_stage_range [where fuel = 1 and env = env_no_D and i = 1 and Ni = 101
      and facstage = 3 and fr = start_frame and st = "start_state []" and r = 2
      and st' = "start_state []"
      and fl = "Continue
         (start_frame,
          \<lparr>dlist = [], sfacs = [], randstate = (), prooftext = [], calls = [],
             visited = [(1, 1), (1, 2), (1, 3)], found = []\<rparr>)"]
    h1 h2
  have "stages_at 1 (start_state [])
          \<lparr>dlist = [], sfacs = [], randstate = (), prooftext = [], calls = [],
             visited = [(1, 1), (1, 2), (1, 3)], found = []\<rparr> = [1, 2, 3]"
    by (simp add: up)
  moreover have "stages_at 1 (start_state []) (start_state []) = take 0 [1, 2, 3]"
    by (simp add: stages_at_def)
  ultimately show ?thesis
    using h1 h2 by simp
qed



text \<open>Two runs of \<open>_GMP_ecpp\<close>: 29 is coprime to 223092870 and the first call of
  \<open>ecpp_down\<close> returns 2; 21 is not coprime to it and \<open>_GMP_is_prob_prime\<close> answers.\<close>

theorem GMP_ecpp_stages_witness:
  "GMP_ecpp 1 env_101 29 () = Inr (2, start_state [4])
   \<and> GMP_ecpp 1 env_101 21 () = Inr (0, start_state [4])"
  using GMP_ecpp_stages [of 1 env_101 29 "()"] GMP_ecpp_stages [of 1 env_101 21 "()"]
  by (simp add: prime_eval env_101_def start_state_def
      gcd_nat.simps [of "numeral u" "numeral v" for u v])

end
